theory Spec2Isabelle
  imports Complex_Main "HOL-Library.Word"
begin

section \<open>SimplePlayback: the player and its network reader\<close>

text \<open>
  A shallow embedding of \<^verbatim>\<open>networkReader.h\<close> and \<^verbatim>\<open>player.h\<close>.

  Conventions of the embedding:
  \<^item> a \<^verbatim>\<open>char\<close> is an 8-bit word, read as a signed value (\<open>sint\<close>) where the code converts
    it to \<^verbatim>\<open>double\<close>; an \<^verbatim>\<open>int16_t\<close> is a 16-bit word stored low byte first;
  \<^item> \<^verbatim>\<open>size_t\<close> values are natural numbers (no count of the program comes near \<open>2^64\<close>);
  \<^item> a \<^verbatim>\<open>double\<close> is an IEEE 754 binary64 value: finite, infinite or NaN, every
    operation rounding its exact result to the nearest representable value;
  \<^item> \<^verbatim>\<open>int\<close> and \<^verbatim>\<open>int16_t\<close> arithmetic is on integers with the two's complement
    wrap-around written out;
  \<^item> a \<^verbatim>\<open>std::ofstream\<close> is its state (open, failed) beside what its file holds;
  \<^item> members that no constructor initialises, and memory returned by \<^verbatim>\<open>new char[n]\<close>, hold
    whatever the environment supplies: the record given to \<open>Player_new\<close> and the \<open>heap\<close>
    function;
  \<^item> the stop watch is a function from the number of earlier readings to elapsed
    milliseconds; the sleep of the network reader changes no data and is left out;
  \<^item> \<^verbatim>\<open>exit(1)\<close> is the value \<open>Exit 1\<close>.
\<close>

subsection \<open>Bytes, samples, conversions\<close>

type_synonym byte = "8 word"
type_synonym int16 = "16 word"

text \<open>The two bytes of a sample in memory, and the sample held by two bytes.\<close>

definition int16_to_bytes :: "int16 \<Rightarrow> byte list" where
  "int16_to_bytes w = [ucast w, ucast (drop_bit 8 w)]"

definition int16_of_bytes :: "byte \<Rightarrow> byte \<Rightarrow> int16" where
  "int16_of_bytes lo hi = word_of_nat (unat lo + 256 * unat hi)"

text \<open>
  \<^verbatim>\<open>m_saw.resize(length / sizeof(int16_t)); is.read((char*)m_saw.data(), length)\<close>:
  the vector holds the whole samples of the file; a trailing odd byte has no slot.
\<close>

fun int16s_of_bytes :: "byte list \<Rightarrow> int16 list" where
  "int16s_of_bytes (lo # hi # bs) = int16_of_bytes lo hi # int16s_of_bytes bs"
| "int16s_of_bytes bs = []"

text \<open>Conversions to \<^verbatim>\<open>int16_t\<close> and \<^verbatim>\<open>int\<close> (32 bits).\<close>

definition to_int16 :: "int \<Rightarrow> int" where
  "to_int16 x = (x + 2 ^ 15) mod 2 ^ 16 - 2 ^ 15"

definition to_int32 :: "int \<Rightarrow> int" where
  "to_int32 x = (x + 2 ^ 31) mod 2 ^ 32 - 2 ^ 31"

subsection \<open>Doubles\<close>

text \<open>
  A \<^verbatim>\<open>double\<close> is a finite value, an infinity with its sign (\<open>Infty True\<close> is the
  positive one) or NaN. The finite values a \<^verbatim>\<open>double\<close> can hold are the numbers
  \<open>m * 2^e\<close> with \<open>\<bar>m\<bar> < 2^53\<close> and \<open>- 1074 \<le> e \<le> 971\<close>; rounding leaves such a value
  as it is (lemma \<open>fl_exact\<close>), and \<open>is_double\<close> says of a value that rounding leaves
  it as it is.

  \<open>fl\<close> rounds a real number the way each arithmetic operation rounds its exact result:
  to the nearest representable value, a tie to the one with the even significand, which
  is the rounding mode a program starts in; every operation is taken to be carried out
  in double precision. \<open>binade x\<close> is the binary exponent of \<open>x\<close>, not below that of the
  subnormal numbers; \<open>ulp x\<close> is the distance between neighbouring representable values
  there; \<open>rne\<close> rounds to the nearest integer, a tie to the even one; a rounded result
  of magnitude \<open>2^1024\<close> or more is an infinity.

  The model has one zero. The sign of a zero shows only in a division by it, and the
  program divides by the constant 2 only; \<open>ddiv\<close> takes a zero divisor as positive.
\<close>

datatype double = Fin real | Infty bool | NaN

definition binade :: "real \<Rightarrow> int" where
  "binade x = max \<lfloor>log 2 \<bar>x\<bar>\<rfloor> (- 1022)"

definition ulp :: "real \<Rightarrow> real" where
  "ulp x = 2 powi (binade x - 52)"

definition rne :: "real \<Rightarrow> int" where
  "rne y =
     (let f = \<lfloor>y\<rfloor>; r = y - of_int f
      in if r < 1 / 2 then f else if 1 / 2 < r then f + 1 else if even f then f else f + 1)"

definition fl :: "real \<Rightarrow> double" where
  "fl x =
     (if x = 0 then Fin 0
      else let r = of_int (rne (x / ulp x)) * ulp x
           in if 2 ^ 1024 \<le> \<bar>r\<bar> then Infty (0 < r) else Fin r)"

fun is_double :: "double \<Rightarrow> bool" where
  "is_double (Fin x) = (fl x = Fin x)"
| "is_double (Infty s) = True"
| "is_double NaN = True"

text \<open>Negation, \<^verbatim>\<open>+\<close>, \<^verbatim>\<open>-\<close>, \<^verbatim>\<open>*\<close> and \<^verbatim>\<open>/\<close> on doubles.\<close>

fun dneg :: "double \<Rightarrow> double" where
  "dneg (Fin x) = Fin (- x)"
| "dneg (Infty s) = Infty (\<not> s)"
| "dneg NaN = NaN"

fun dadd :: "double \<Rightarrow> double \<Rightarrow> double" where
  "dadd (Fin x) (Fin y) = fl (x + y)"
| "dadd (Fin x) (Infty t) = Infty t"
| "dadd (Infty s) (Fin y) = Infty s"
| "dadd (Infty s) (Infty t) = (if s = t then Infty s else NaN)"
| "dadd NaN y = NaN"
| "dadd x NaN = NaN"

definition dsub :: "double \<Rightarrow> double \<Rightarrow> double" where
  "dsub x y = dadd x (dneg y)"

fun dmul :: "double \<Rightarrow> double \<Rightarrow> double" where
  "dmul (Fin x) (Fin y) = fl (x * y)"
| "dmul (Fin x) (Infty t) = (if x = 0 then NaN else Infty (t = (0 < x)))"
| "dmul (Infty s) (Fin y) = (if y = 0 then NaN else Infty (s = (0 < y)))"
| "dmul (Infty s) (Infty t) = Infty (s = t)"
| "dmul NaN y = NaN"
| "dmul x NaN = NaN"

fun ddiv :: "double \<Rightarrow> double \<Rightarrow> double" where
  "ddiv (Fin x) (Fin y) =
     (if y = 0 then (if x = 0 then NaN else Infty (0 < x)) else fl (x / y))"
| "ddiv (Fin x) (Infty t) = Fin 0"
| "ddiv (Infty s) (Fin y) = Infty (s = (0 \<le> y))"
| "ddiv (Infty s) (Infty t) = NaN"
| "ddiv NaN y = NaN"
| "ddiv x NaN = NaN"

text \<open>\<^verbatim>\<open><=\<close> and \<^verbatim>\<open>>=\<close> on doubles: a comparison with NaN is false.\<close>

fun dle :: "double \<Rightarrow> double \<Rightarrow> bool" where
  "dle (Fin x) (Fin y) = (x \<le> y)"
| "dle (Fin x) (Infty t) = t"
| "dle (Infty s) (Fin y) = (\<not> s)"
| "dle (Infty s) (Infty t) = (if s then t else True)"
| "dle NaN y = False"
| "dle x NaN = False"

definition dge :: "double \<Rightarrow> double \<Rightarrow> bool" where
  "dge x y = dle y x"

text \<open>
  \<^verbatim>\<open>(double) c\<close> for a \<^verbatim>\<open>char c\<close> is exact. \<^verbatim>\<open>(char) x\<close> truncates towards zero; for
  a value outside the range of \<^verbatim>\<open>char\<close>, an infinity or NaN the conversion is not defined
  in C++: the model wraps a finite value and gives 0 for the others. With gains in
  \<open>[0, 1]\<close> no product with a byte leaves the range.
\<close>

definition trunc0 :: "real \<Rightarrow> int" where
  "trunc0 x = (if 0 \<le> x then \<lfloor>x\<rfloor> else - \<lfloor>- x\<rfloor>)"

fun char_of_double :: "double \<Rightarrow> byte" where
  "char_of_double (Fin x) = word_of_int (trunc0 x)"
| "char_of_double (Infty s) = 0"
| "char_of_double NaN = 0"

definition double_of_char :: "byte \<Rightarrow> double" where
  "double_of_char c = Fin (real_of_int (sint c))"

subsection \<open>Process, files, output streams\<close>

datatype 'a proc = Exit int | Running 'a

type_synonym filesystem = "string \<Rightarrow> byte list option"

text \<open>
  What \<^verbatim>\<open>open\<close> does to the files: an input file opened for reading, an output file
  opened and truncated, or an \<^verbatim>\<open>open\<close> that the stream refuses, leaving the file alone.
\<close>

datatype file_op = Open_read string | Open_trunc string | Open_refused string

text \<open>
  The state of a \<^verbatim>\<open>std::ofstream\<close>: whether a file is open, and whether \<^verbatim>\<open>failbit\<close> or
  \<^verbatim>\<open>badbit\<close> is set (what \<^verbatim>\<open>!stream\<close> tests). A stream writes only when it is open and
  not failed (\<open>accepts\<close>).

  \<^verbatim>\<open>open\<close> on a stream that is already open fails: it sets \<^verbatim>\<open>failbit\<close> and touches no
  file. On a closed stream it opens the file, which \<^verbatim>\<open>std::ios::trunc\<close> empties, and
  clears the state; the output files are taken to be creatable.

  A write to a failed stream does nothing. A write of at least one character to a stream
  that is not open fails and sets \<^verbatim>\<open>badbit\<close>. The first component of each result says
  whether the file was opened, or whether the characters were written.
\<close>

record ofstream =
  is_open :: bool
  failed :: bool

definition accepts :: "ofstream \<Rightarrow> bool" where
  "accepts s \<longleftrightarrow> is_open s \<and> \<not> failed s"

definition ofstream_open :: "ofstream \<Rightarrow> bool \<times> ofstream" where
  "ofstream_open s =
     (if is_open s then (False, s\<lparr>failed := True\<rparr>)
      else (True, \<lparr>is_open = True, failed = False\<rparr>))"

definition ofstream_write :: "nat \<Rightarrow> ofstream \<Rightarrow> bool \<times> ofstream" where
  "ofstream_write n s =
     (if failed s then (False, s)
      else if is_open s then (True, s)
      else (False, s\<lparr>failed := (0 < n)\<rparr>))"

definition open_op :: "bool \<Rightarrow> string \<Rightarrow> file_op" where
  "open_op succeeded name = (if succeeded then Open_trunc name else Open_refused name)"

subsection \<open>networkReader.h\<close>

record NetworkReader =
  m_saw :: "int16 list"
  m_sawIndex :: nat

definition initWaveform :: "filesystem \<Rightarrow> NetworkReader \<Rightarrow> NetworkReader proc" where
  "initWaveform fs r =
     (case fs ''audio2_s16le_mono_48k.raw'' of
        Some bytes \<Rightarrow> Running (r\<lparr>m_saw := int16s_of_bytes bytes\<rparr>)
      | None \<Rightarrow> Exit 1)"

definition NetworkReader_new :: "filesystem \<Rightarrow> NetworkReader proc" where
  "NetworkReader_new fs = initWaveform fs \<lparr>m_saw = [], m_sawIndex = 0\<rparr>"

text \<open>
  \<^verbatim>\<open>std::copy_n(m_saw.begin() + m_sawIndex, nSamples, (int16_t*)buf)\<close>: the first
  \<open>2 * nSamples\<close> bytes of the buffer are overwritten, the rest keeps its content.
\<close>

definition copy_n :: "int16 list \<Rightarrow> nat \<Rightarrow> nat \<Rightarrow> byte list \<Rightarrow> byte list" where
  "copy_n saw first n buf =
     (let bytes = concat (map int16_to_bytes (take n (drop first saw)))
      in bytes @ drop (length bytes) buf)"

text \<open>
  \<^verbatim>\<open>NetworkReader::read\<close>. The result is the byte count, the buffer and the reader.
  \<open>samplesRemaining\<close> is an unsigned difference in the source; the index never passes
  the size (lemma \<open>NetworkReader_read_index_le\<close>), so it does not wrap.
\<close>

definition NetworkReader_read ::
  "NetworkReader \<Rightarrow> byte list \<Rightarrow> nat \<Rightarrow> nat \<times> byte list \<times> NetworkReader" where
  "NetworkReader_read r buf maxBytes =
     (let blockSize = 8192 * 4;
          samplesRemaining = length (m_saw r) - m_sawIndex r
      in if samplesRemaining = 0 then (0, buf, r)
         else
           let maxReadSize = min (min maxBytes blockSize) (samplesRemaining * 2);
               nSamples = maxReadSize div 2
           in (nSamples * 2,
               copy_n (m_saw r) (m_sawIndex r) nSamples buf,
               r\<lparr>m_sawIndex := m_sawIndex r + nSamples\<rparr>))"

subsection \<open>player.h\<close>

record Player =
  networkLevel :: double
  playerLevel :: double
  nr :: NetworkReader
  sink_stream :: ofstream
  sink :: "byte list"
  sink_file :: string
  stats_stream :: ofstream
  stats :: "(int \<times> int) list"
  stats_file :: string
  playerBuffer :: "byte list"
  networkBuffer :: "byte list"
  mix :: "byte list"
  playerBytes :: nat
  networkBytes :: nat
  writtenSamples :: int
  p_saw :: "int16 list"
  p_sawIndex :: nat
  timePaused :: int
  pausedSample :: int
  paused :: bool
  stopWatch :: "nat \<Rightarrow> int"
  stopWatch_reads :: nat
  heap :: "nat \<Rightarrow> nat \<Rightarrow> byte"
  allocs :: nat

text \<open>
  The members \<^verbatim>\<open>sink\<close> and \<^verbatim>\<open>stats\<close> of the class are \<open>sink_stream\<close> and
  \<open>stats_stream\<close>, the state of the two streams, with \<open>sink\<close> and \<open>stats\<close>, what has
  been written to the files the streams were last opened on (a line of the statistics
  file is a pair), and \<open>sink_file\<close> and \<open>stats_file\<close>, the names of those files.
  \<open>p_saw\<close> and \<open>p_sawIndex\<close> are the player's own \<^verbatim>\<open>m_saw\<close> and \<^verbatim>\<open>m_sawIndex\<close>. The
  last four fields are the environment: clock readings and the content of fresh memory.
\<close>

definition elapsed :: "Player \<Rightarrow> int \<times> Player" where
  "elapsed p = (stopWatch p (stopWatch_reads p), p\<lparr>stopWatch_reads := Suc (stopWatch_reads p)\<rparr>)"

definition new_chars :: "nat \<Rightarrow> Player \<Rightarrow> byte list \<times> Player" where
  "new_chars n p = (map (heap p (allocs p)) [0..<n], p\<lparr>allocs := Suc (allocs p)\<rparr>)"

text \<open>
  \<^verbatim>\<open>Player() : m_sawIndex(0) {}\<close>: the reader member is constructed (it loads its file),
  the vector is empty, the streams are closed; every other member keeps what \<open>mem\<close> holds.
\<close>

definition Player_new :: "filesystem \<Rightarrow> Player \<Rightarrow> Player proc" where
  "Player_new fs mem =
     (case NetworkReader_new fs of
        Exit c \<Rightarrow> Exit c
      | Running r \<Rightarrow>
          Running (mem\<lparr>nr := r,
                       sink_stream := \<lparr>is_open = False, failed = False\<rparr>,
                       sink := [], sink_file := [],
                       stats_stream := \<lparr>is_open = False, failed = False\<rparr>,
                       stats := [], stats_file := [],
                       p_saw := [], p_sawIndex := 0\<rparr>))"

definition setMixingLevel :: "double \<Rightarrow> Player \<Rightarrow> Player" where
  "setMixingLevel level0 p =
     (let level = (if dle level0 (Fin (- 1)) then Fin (- 1) else level0);
          level = (if dge level (Fin 1) then Fin 1 else level)
      in p\<lparr>networkLevel := ddiv (dsub (Fin 1) level) (Fin 2),
           playerLevel := ddiv (dadd (Fin 1) level) (Fin 2)\<rparr>)"

definition init :: "filesystem \<Rightarrow> Player \<Rightarrow> Player proc" where
  "init fs p =
     (case fs ''audio1_s16le_mono_48k.raw'' of
        Some bytes \<Rightarrow> Running (p\<lparr>p_saw := int16s_of_bytes bytes\<rparr>)
      | None \<Rightarrow> Exit 1)"

text \<open>
  \<^verbatim>\<open>Player::open\<close>. The first component is what was done to the files, in order. A
  stream that opens its file starts with the file empty; a stream that refuses (the player
  was open already) keeps its file and what was written to it.
\<close>

definition Player_open ::
  "string \<Rightarrow> string \<Rightarrow> filesystem \<Rightarrow> Player \<Rightarrow> file_op list \<times> Player proc" where
  "Player_open networkUrl filename fs p0 =
     (let sinkFile = ''audio_output.raw'';
          statsFile = ''realtime_stats.txt'';
          (sinkOpened, s) = ofstream_open (sink_stream p0);
          p = p0\<lparr>sink_stream := s\<rparr>;
          p = (if sinkOpened then p\<lparr>sink := [], sink_file := sinkFile\<rparr> else p);
          (statsOpened, s) = ofstream_open (stats_stream p);
          p = p\<lparr>stats_stream := s\<rparr>;
          p = (if statsOpened then p\<lparr>stats := [], stats_file := statsFile\<rparr> else p);
          samples = 72;
          p = p\<lparr>networkBytes := samples * 2\<rparr>;
          (buf, p) = new_chars (networkBytes p) p;
          p = p\<lparr>networkBuffer := buf\<rparr>;
          p = p\<lparr>playerBytes := samples * 2\<rparr>;
          (buf, p) = new_chars (playerBytes p) p;
          p = p\<lparr>playerBuffer := buf\<rparr>
      in ([open_op sinkOpened sinkFile, open_op statsOpened statsFile,
           Open_read ''audio1_s16le_mono_48k.raw''],
          case init fs p of
            Exit c \<Rightarrow> Exit c
          | Running p \<Rightarrow> Running (setMixingLevel (Fin 0) p)))"

text \<open>\<^verbatim>\<open>Player::read\<close>, the same steps as the network reader's without the sleep.\<close>

definition Player_read :: "Player \<Rightarrow> byte list \<Rightarrow> nat \<Rightarrow> nat \<times> byte list \<times> Player" where
  "Player_read p buf maxBytes =
     (let blockSize = 8192 * 4;
          samplesRemaining = length (p_saw p) - p_sawIndex p
      in if samplesRemaining = 0 then (0, buf, p)
         else
           let maxReadSize = min (min maxBytes blockSize) (samplesRemaining * 2);
               nSamples = maxReadSize div 2
           in (nSamples * 2,
               copy_n (p_saw p) (p_sawIndex p) nSamples buf,
               p\<lparr>p_sawIndex := p_sawIndex p + nSamples\<rparr>))"

text \<open>The two mixing loops of \<^verbatim>\<open>Player::play\<close>.\<close>

function mix_network ::
  "double \<Rightarrow> byte list \<Rightarrow> nat \<Rightarrow> nat \<Rightarrow> nat \<Rightarrow> byte list \<Rightarrow> byte list" where
  "mix_network level buf networkRead i pos m =
     (if i < networkRead then
        let bit = dmul level (double_of_char (buf ! i));
            m = m[pos := char_of_double bit];
            pos = pos + 1;
            m = m[pos := char_of_double bit];
            pos = pos + 1
        in mix_network level buf networkRead (i + 1) pos m
      else m)"
  by pat_completeness auto
termination
  by (relation "measure (\<lambda>(level, buf, networkRead, i, pos, m). networkRead - i)") auto

function mix_player ::
  "double \<Rightarrow> byte list \<Rightarrow> nat \<Rightarrow> nat \<Rightarrow> nat \<Rightarrow> byte list \<Rightarrow> byte list" where
  "mix_player level buf playerRead i pos m =
     (if i < playerRead then
        let bit = dmul level (double_of_char (buf ! i));
            m = m[pos := m ! pos + char_of_double bit];
            pos = pos + 1;
            m = m[pos := m ! pos + char_of_double bit];
            pos = pos + 1
        in mix_player level buf playerRead (i + 1) pos m
      else m)"
  by pat_completeness auto
termination
  by (relation "measure (\<lambda>(level, buf, playerRead, i, pos, m). playerRead - i)") auto

declare mix_network.simps [simp del] mix_player.simps [simp del]

text \<open>
  One pass through the body of \<^verbatim>\<open>Player::play\<close>, up to the write to the sink, in
  three parts that follow the source's order: the two reads; the mixing buffer, the sample
  counter and the two loops; the line of statistics and the write to the sink (the clock
  is read whether or not the statistics stream takes the line).
  \<open>play_cycle\<close> gives the bytes read from the network, the bytes read from the file, and
  the player afterwards.
\<close>

definition play_read :: "Player \<Rightarrow> nat \<times> nat \<times> Player" where
  "play_read p0 =
     (let p = p0\<lparr>paused := False\<rparr>;
          (networkRead, buf, r) = NetworkReader_read (nr p) (networkBuffer p) (networkBytes p);
          p = p\<lparr>nr := r, networkBuffer := buf\<rparr>;
          (playerRead, buf, p) = Player_read p (playerBuffer p) (playerBytes p);
          p = p\<lparr>playerBuffer := buf\<rparr>
      in (networkRead, playerRead, p))"

definition play_mix :: "nat \<Rightarrow> nat \<Rightarrow> Player \<Rightarrow> Player" where
  "play_mix networkRead playerRead p0 =
     (let (m, p) = new_chars (2 * (networkRead + playerRead)) p0;
          p = p\<lparr>mix := m\<rparr>;
          p = p\<lparr>writtenSamples :=
                 to_int32 (writtenSamples p
                           + to_int16 (int (playerRead div 2 + networkRead div 2)))\<rparr>;
          p = p\<lparr>mix := mix_network (networkLevel p) (networkBuffer p) networkRead 0 0 (mix p)\<rparr>
      in p\<lparr>mix := mix_player (playerLevel p) (playerBuffer p) playerRead 0 0 (mix p)\<rparr>)"

definition play_write :: "nat \<Rightarrow> nat \<Rightarrow> Player \<Rightarrow> Player" where
  "play_write networkRead playerRead p0 =
     (let (t, p) = elapsed p0;
          (written, s) = ofstream_write 1 (stats_stream p);
          p = p\<lparr>stats_stream := s\<rparr>;
          p = (if written then p\<lparr>stats := stats p @ [(t, writtenSamples p)]\<rparr> else p);
          (written, s) = ofstream_write (2 * (networkRead + playerRead)) (sink_stream p);
          p = p\<lparr>sink_stream := s\<rparr>
      in if written then p\<lparr>sink := sink p @ take (2 * (networkRead + playerRead)) (mix p)\<rparr>
         else p)"

definition play_cycle :: "Player \<Rightarrow> nat \<times> nat \<times> Player" where
  "play_cycle p0 =
     (let (networkRead, playerRead, p) = play_read p0;
          p = play_mix networkRead playerRead p;
          p = play_write networkRead playerRead p
      in (networkRead, playerRead, p))"

text \<open>
  The two reads of a cycle as functions of the player before it. \<^verbatim>\<open>Player::read\<close> does
  to the player's own vector and index what \<^verbatim>\<open>NetworkReader::read\<close> does to the reader's
  (lemma \<open>Player_read_as_NetworkReader_read\<close>).
\<close>

definition net_read :: "Player \<Rightarrow> nat \<times> byte list \<times> NetworkReader" where
  "net_read p = NetworkReader_read (nr p) (networkBuffer p) (networkBytes p)"

definition file_read :: "Player \<Rightarrow> nat \<times> byte list \<times> NetworkReader" where
  "file_read p = NetworkReader_read \<lparr>m_saw = p_saw p, m_sawIndex = p_sawIndex p\<rparr>
                   (playerBuffer p) (playerBytes p)"

text \<open>Samples not yet read, of both sources.\<close>

definition remaining :: "Player \<Rightarrow> nat" where
  "remaining p =
     (length (m_saw (nr p)) - m_sawIndex (nr p)) + (length (p_saw p) - p_sawIndex p)"

text \<open>
  \<^verbatim>\<open>Player::play\<close>: the body, then the test for the end of both sources, then the call
  of itself unless \<open>paused\<close> is set. Each pass that reads a byte shortens what remains.
\<close>

function play :: "Player \<Rightarrow> Player" where
  "play p =
     (let (networkRead, playerRead, p1) = play_cycle p
      in if playerRead = 0 \<and> networkRead = 0 then p1
         else if \<not> paused p1 then play p1 else p1)"
  by pat_completeness auto
termination
proof (relation "measure remaining")
  show "wf (measure remaining)" by simp
next
  fix p x networkRead y playerRead p1
  assume a: "x = play_cycle p" "(networkRead, y) = x" "(playerRead, p1) = y"
    and b: "\<not> (playerRead = 0 \<and> networkRead = 0)"
  have r: "play_read p =
     (fst (net_read p), fst (file_read p),
      p\<lparr>paused := False, nr := snd (snd (net_read p)), networkBuffer := fst (snd (net_read p)),
        p_sawIndex := m_sawIndex (snd (snd (file_read p))),
        playerBuffer := fst (snd (file_read p))\<rparr>)"
    by (simp add: play_read_def Player_read_def NetworkReader_read_def net_read_def
        file_read_def Let_def split_beta)
  have m: "nr (play_mix a b q) = nr q \<and> p_saw (play_mix a b q) = p_saw q
      \<and> p_sawIndex (play_mix a b q) = p_sawIndex q" for a b q
    by (simp add: play_mix_def new_chars_def Let_def split_beta)
  have w: "nr (play_write a b q) = nr q \<and> p_saw (play_write a b q) = p_saw q
      \<and> p_sawIndex (play_write a b q) = p_sawIndex q" for a b q
    by (simp add: play_write_def elapsed_def ofstream_write_def Let_def split_beta)
  from a have c: "play_cycle p = (networkRead, playerRead, p1)" by simp
  then have d: "networkRead = fst (net_read p)" "playerRead = fst (file_read p)"
    "nr p1 = snd (snd (net_read p))" "p_saw p1 = p_saw p"
    "p_sawIndex p1 = m_sawIndex (snd (snd (file_read p)))"
    by (auto simp add: play_cycle_def r m w Let_def)
  have ar: "\<And>len idx mb. \<not> len \<le> (idx::nat) \<Longrightarrow>
      (len - (idx + min (min mb 32768) ((len - idx) * 2) div 2) \<le> len - idx) \<and>
      (0 < min (min mb 32768) ((len - idx) * 2) div 2 \<longrightarrow>
       len - (idx + min (min mb 32768) ((len - idx) * 2) div 2) < len - idx)"
    by arith
  have "0 < networkRead \<Longrightarrow>
      length (m_saw (nr p1)) - m_sawIndex (nr p1) < length (m_saw (nr p)) - m_sawIndex (nr p)"
    unfolding d using ar [of "length (m_saw (nr p))" "m_sawIndex (nr p)" "networkBytes p"]
    by (simp add: net_read_def NetworkReader_read_def Let_def split: if_splits)
  moreover have "length (m_saw (nr p1)) - m_sawIndex (nr p1)
       \<le> length (m_saw (nr p)) - m_sawIndex (nr p)"
    unfolding d using ar [of "length (m_saw (nr p))" "m_sawIndex (nr p)" "networkBytes p"]
    by (simp add: net_read_def NetworkReader_read_def Let_def split: if_splits)
  moreover have "0 < playerRead \<Longrightarrow>
      length (p_saw p1) - p_sawIndex p1 < length (p_saw p) - p_sawIndex p"
    unfolding d using ar [of "length (p_saw p)" "p_sawIndex p" "playerBytes p"]
    by (simp add: file_read_def NetworkReader_read_def Let_def split: if_splits)
  moreover have "length (p_saw p1) - p_sawIndex p1 \<le> length (p_saw p) - p_sawIndex p"
    unfolding d using ar [of "length (p_saw p)" "p_sawIndex p" "playerBytes p"]
    by (simp add: file_read_def NetworkReader_read_def Let_def split: if_splits)
  ultimately have "remaining p1 < remaining p"
    using b by (auto simp: remaining_def)
  then show "(p1, p) \<in> measure remaining" by simp
qed

declare play.simps [simp del]


definition pause :: "Player \<Rightarrow> Player" where
  "pause p0 =
     (let p = p0\<lparr>paused := True\<rparr>;
          (t, p) = elapsed p;
          p = p\<lparr>timePaused := t\<rparr>
      in p\<lparr>pausedSample := writtenSamples p\<rparr>)"

definition cycle_state :: "Player \<Rightarrow> Player" where
  "cycle_state p = snd (snd (play_cycle p))"

subsection \<open>main.cpp\<close>

text \<open>
  The first two statements of \<^verbatim>\<open>main\<close>: the player is constructed, then opened. The two
  arguments are the names \<^verbatim>\<open>main\<close> passes.
\<close>

definition main_open :: "filesystem \<Rightarrow> Player \<Rightarrow> Player proc" where
  "main_open fs mem =
     (case Player_new fs mem of
        Exit c \<Rightarrow> Exit c
      | Running p \<Rightarrow>
          snd (Player_open ''audio2_s16le_mono_48k.raw'' ''audio1_s16le_mono_48k.raw'' fs p))"

subsection \<open>Sessions\<close>

text \<open>
  A session is a sequence of calls on an opened player. A call of \<^verbatim>\<open>play\<close> is a run of
  cycles (lemma \<open>play_is_cycles\<close>), so a session is given by its cycles and the calls of
  \<^verbatim>\<open>pause\<close> and \<^verbatim>\<open>setMixingLevel\<close> between them. \<open>session\<close> collects the bytes each
  source delivered into its buffer, in order, and returns the player at the end.
\<close>

datatype call = Cycle | Pause | SetMixingLevel double

fun session :: "call list \<Rightarrow> Player \<Rightarrow> byte list \<times> byte list \<times> Player" where
  "session [] p = ([], [], p)"
| "session (Cycle # cs) p =
     (let (networkRead, playerRead, p1) = play_cycle p;
          (ns, fs, p2) = session cs p1
      in (take networkRead (networkBuffer p1) @ ns, take playerRead (playerBuffer p1) @ fs, p2))"
| "session (Pause # cs) p = session cs (pause p)"
| "session (SetMixingLevel level # cs) p = session cs (setMixingLevel level p)"

text \<open>The indices of both sources lie within their vectors.\<close>

definition in_bounds :: "Player \<Rightarrow> bool" where
  "in_bounds p \<longleftrightarrow> m_sawIndex (nr p) \<le> length (m_saw (nr p)) \<and> p_sawIndex p \<le> length (p_saw p)"

text \<open>The bytes of a run of samples.\<close>

definition sample_bytes :: "int16 list \<Rightarrow> byte list" where
  "sample_bytes xs = concat (map int16_to_bytes xs)"

subsection \<open>The mixing rule of the specification\<close>

text \<open>
  Following the specification's words, for comparison with the code: the mixed value is
  \<open>round (networkGain * networkSample + localGain * localSample)\<close> clamped to the signed
  16-bit range, and a frame is that value twice, each as a sample low byte first.
\<close>

definition spec_mixed :: "real \<Rightarrow> real \<Rightarrow> int16 \<Rightarrow> int16 \<Rightarrow> int16" where
  "spec_mixed networkGain localGain networkSample localSample =
     word_of_int (max (- 32768) (min 32767
       (round (networkGain * real_of_int (sint networkSample)
               + localGain * real_of_int (sint localSample)))))"

definition spec_MixFrame :: "real \<Rightarrow> real \<Rightarrow> int16 \<Rightarrow> int16 \<Rightarrow> byte list" where
  "spec_MixFrame networkGain localGain networkSample localSample =
     int16_to_bytes (spec_mixed networkGain localGain networkSample localSample)
     @ int16_to_bytes (spec_mixed networkGain localGain networkSample localSample)"

subsection \<open>Concrete inputs\<close>

text \<open>
  A file system holding the two input files, one holding the network file only and an
  empty one; a memory whose uninitialised parts hold zeros and closed streams (fresh heap
  memory holds the byte \<open>170\<close>) with a clock that advances by one millisecond per
  reading; and the player \<^verbatim>\<open>main\<close> has after \<^verbatim>\<open>open\<close> on them.
\<close>

definition input_files :: "byte list \<Rightarrow> byte list \<Rightarrow> filesystem" where
  "input_files network_bytes file_bytes =
     (\<lambda>name. if name = ''audio2_s16le_mono_48k.raw'' then Some network_bytes
             else if name = ''audio1_s16le_mono_48k.raw'' then Some file_bytes
             else None)"

definition network_file_only :: "byte list \<Rightarrow> filesystem" where
  "network_file_only network_bytes =
     (\<lambda>name. if name = ''audio2_s16le_mono_48k.raw'' then Some network_bytes else None)"

definition no_files :: filesystem where
  "no_files = (\<lambda>name. None)"

definition blank :: Player where
  "blank =
     \<lparr>networkLevel = Fin 0, playerLevel = Fin 0, nr = \<lparr>m_saw = [], m_sawIndex = 0\<rparr>,
      sink_stream = \<lparr>is_open = False, failed = False\<rparr>, sink = [], sink_file = [],
      stats_stream = \<lparr>is_open = False, failed = False\<rparr>, stats = [], stats_file = [],
      playerBuffer = [], networkBuffer = [], mix = [],
      playerBytes = 0, networkBytes = 0, writtenSamples = 0,
      p_saw = [], p_sawIndex = 0, timePaused = 0, pausedSample = 0, paused = False,
      stopWatch = int, stopWatch_reads = 0, heap = (\<lambda>k i. 170), allocs = 0\<rparr>"

definition opened :: "byte list \<Rightarrow> byte list \<Rightarrow> Player" where
  "opened network_bytes file_bytes =
     (case main_open (input_files network_bytes file_bytes) blank of
        Running p \<Rightarrow> p
      | Exit c \<Rightarrow> blank)"

text \<open>
  The level \<^verbatim>\<open>main\<close> sets: the literal \<^verbatim>\<open>-0.4\<close> is the double nearest to \<open>- 2 / 5\<close>.
\<close>

definition main_level :: double where
  "main_level = fl (- 2 / 5)"

text \<open>The number of samples a read hands over.\<close>

definition granted :: "NetworkReader \<Rightarrow> nat \<Rightarrow> nat" where
  "granted r maxBytes =
     min (min maxBytes 32768) ((length (m_saw r) - m_sawIndex r) * 2) div 2"

text \<open>
  What a cycle leaves in the mixing buffer and in the sample counter, as functions of the
  player before it (lemma \<open>play_cycle_eq\<close>).
\<close>

definition mixed :: "Player \<Rightarrow> byte list" where
  "mixed p =
     mix_player (playerLevel p) (fst (snd (file_read p))) (fst (file_read p)) 0 0
       (mix_network (networkLevel p) (fst (snd (net_read p))) (fst (net_read p)) 0 0
          (map (heap p (allocs p)) [0..<2 * (fst (net_read p) + fst (file_read p))]))"

definition counted :: "Player \<Rightarrow> int" where
  "counted p =
     to_int32 (writtenSamples p
               + to_int16 (int (fst (file_read p) div 2 + fst (net_read p) div 2)))"

text \<open>The player's own vector and index, as a reader.\<close>

definition file_stream :: "Player \<Rightarrow> NetworkReader" where
  "file_stream p = \<lparr>m_saw = p_saw p, m_sawIndex = p_sawIndex p\<rparr>"

text \<open>Ten samples for the network file and six for the local file.\<close>

definition ten_samples :: "byte list" where
  "ten_samples = [10, 0, 20, 0, 30, 0, 40, 0, 50, 0, 60, 0, 70, 0, 80, 0, 90, 0, 100, 0]"

definition six_samples :: "byte list" where
  "six_samples = [1, 0, 2, 0, 3, 0, 4, 0, 5, 0, 6, 0]"

text \<open>
  The sample counter is a 32-bit \<^verbatim>\<open>int\<close> that no constructor initialises, and the sum added
  to it in a cycle is cast to \<^verbatim>\<open>int16_t\<close>. \<open>counter_fits\<close> says that neither conversion
  changes a value in what is left of the session: the counter is a 32-bit value with room
  for all remaining samples, and the two byte budgets together stay below \<open>2^16\<close>.
\<close>

definition counter_fits :: "Player \<Rightarrow> bool" where
  "counter_fits p \<longleftrightarrow>
     - (2 ^ 31) \<le> writtenSamples p \<and> writtenSamples p + int (remaining p) < 2 ^ 31
     \<and> networkBytes p + playerBytes p < 65536"

section \<open>Properties\<close>

subsection \<open>Rounding\<close>

lemma rne_of_int [simp]: "rne (of_int n) = n"
  by (simp add: rne_def)

lemma rne_error: "\<bar>of_int (rne y) - y\<bar> \<le> 1 / 2"
  unfolding rne_def Let_def by (simp; linarith)

lemma rne_lower: "of_int n \<le> y \<Longrightarrow> n \<le> rne y"
  using rne_error [of y] by linarith

lemma rne_upper: "y \<le> of_int n \<Longrightarrow> rne y \<le> n"
  using rne_error [of y] by linarith

lemma binade_eq:
  assumes "2 powi k \<le> \<bar>x\<bar>" and "\<bar>x\<bar> < 2 powi (k + 1)" and "- 1022 \<le> k"
  shows "binade x = k"
proof -
  have pos: "0 < \<bar>x\<bar>"
    using assms(1) zero_less_power_int [of "2::real" k] by linarith
  have "(2::real) powr real_of_int k \<le> \<bar>x\<bar>" "\<bar>x\<bar> < (2::real) powr (real_of_int k + 1)"
    using assms(1,2) powr_real_of_int' [of "2::real" k] powr_real_of_int' [of "2::real" "k + 1"]
    by simp_all
  then have "\<lfloor>log 2 \<bar>x\<bar>\<rfloor> = k"
    using floor_log_eq_powr_iff [of "\<bar>x\<bar>" 2 k] pos by simp
  then show ?thesis
    using assms(3) by (simp add: binade_def)
qed

lemma binade_bounds:
  assumes "x \<noteq> 0"
  shows "\<bar>x\<bar> < 2 powi (binade x + 1)"
    and "2 powi (binade x) \<le> \<bar>x\<bar> \<or> binade x = - 1022"
proof -
  define k where "k = \<lfloor>log 2 \<bar>x\<bar>\<rfloor>"
  have pos: "0 < \<bar>x\<bar>" using assms by simp
  have "(2::real) powr real_of_int k \<le> \<bar>x\<bar> \<and> \<bar>x\<bar> < (2::real) powr (real_of_int k + 1)"
    using floor_log_eq_powr_iff [of "\<bar>x\<bar>" 2 k] pos by (simp add: k_def)
  then have k: "2 powi k \<le> \<bar>x\<bar>" "\<bar>x\<bar> < 2 powi (k + 1)"
    using powr_real_of_int' [of "2::real" k] powr_real_of_int' [of "2::real" "k + 1"]
    by simp_all
  have b: "binade x = max k (- 1022)"
    by (simp add: binade_def k_def)
  have "(2::real) powi (k + 1) \<le> 2 powi (binade x + 1)"
    by (rule power_int_increasing) (simp_all add: b)
  with k(2) show "\<bar>x\<bar> < 2 powi (binade x + 1)" by linarith
  show "2 powi (binade x) \<le> \<bar>x\<bar> \<or> binade x = - 1022"
    using k(1) b by (cases "- 1022 \<le> k") (simp_all add: max_def)
qed

lemma fl_exact:
  assumes "x = of_int m * 2 powi e" and "\<bar>m\<bar> < 2 ^ 53" and "- 1074 \<le> e" and "e \<le> 971"
  shows "fl x = Fin x"
proof (cases "x = 0")
  case True
  then show ?thesis by (simp add: fl_def)
next
  case False
  define q where "q = binade x - 52"
  have m: "\<bar>real_of_int m\<bar> < 2 ^ 53"
    using assms(2) by (metis of_int_abs of_int_less_numeral_power_cancel_iff)
  have "\<bar>x\<bar> = \<bar>real_of_int m\<bar> * 2 powi e"
    by (simp add: assms(1) abs_mult)
  also have "\<dots> < 2 ^ 53 * 2 powi e"
    using m by (simp add: mult_strict_right_mono)
  also have "\<dots> = 2 powi (53 + e)"
    by (simp add: power_int_add)
  finally have up: "\<bar>x\<bar> < 2 powi (53 + e)" .
  have "q \<le> e"
  proof (cases "binade x = - 1022")
    case True
    then show ?thesis using assms(3) by (simp add: q_def)
  next
    case False
    then have "2 powi (binade x) \<le> \<bar>x\<bar>"
      using binade_bounds(2) [OF \<open>x \<noteq> 0\<close>] by simp
    with up have "(2::real) powi (binade x) < 2 powi (53 + e)" by linarith
    then have "binade x < 53 + e"
      by (smt (verit) power_int_increasing)
    then show ?thesis by (simp add: q_def)
  qed
  then have "x / 2 powi q = of_int m * 2 powi (e - q)"
    by (simp add: assms(1) power_int_diff)
  also have "\<dots> = of_int (m * 2 ^ nat (e - q))"
    using \<open>q \<le> e\<close> by (simp add: power_int_def)
  finally have whole: "x / 2 powi q = of_int (m * 2 ^ nat (e - q))" .
  then have "rne (x / ulp x) = m * 2 ^ nat (e - q)"
    by (simp only: ulp_def q_def [symmetric] rne_of_int)
  then have "of_int (rne (x / ulp x)) * ulp x = x / 2 powi q * 2 powi q"
    by (simp only: whole ulp_def q_def [symmetric])
  then have r: "of_int (rne (x / ulp x)) * ulp x = x"
    by simp
  have "(2::real) powi (53 + e) \<le> 2 powi 1024"
    by (rule power_int_increasing) (use assms(4) in simp_all)
  with up have "\<bar>x\<bar> < 2 ^ 1024" by simp
  with r False show ?thesis
    by (simp add: fl_def Let_def)
qed


lemma fl_in_binade:
  assumes "2 powi k \<le> \<bar>x\<bar>" and "\<bar>x\<bar> < 2 powi (k + 1)" and "- 1022 \<le> k" and "k \<le> 1022"
  shows "fl x = Fin (of_int (rne (x / 2 powi (k - 52))) * 2 powi (k - 52))"
proof -
  define u :: real where "u = 2 powi (k - 52)"
  have u: "0 < u" by (simp add: u_def)
  have b: "binade x = k" by (rule binade_eq [OF assms(1-3)])
  have nz: "x \<noteq> 0"
  proof
    assume "x = 0"
    with assms(1) have "(2::real) powi k \<le> 0" by simp
    moreover have "0 < (2::real) powi k" by (rule zero_less_power_int) simp
    ultimately show False by linarith
  qed
  define y where "y = x / u"
  have "2 powi (k + 1) = 2 ^ 53 * u"
    by (simp add: u_def power_int_add power_int_diff)
  then have "\<bar>x\<bar> < 2 ^ 53 * u"
    using assms(2) by simp
  then have "\<bar>y\<bar> < 2 ^ 53"
    using u by (simp add: y_def abs_divide pos_divide_less_eq)
  then have "y \<le> of_int (2 ^ 53)" "of_int (- (2 ^ 53)) \<le> y"
    by (auto simp: abs_less_iff)
  then have "rne y \<le> 2 ^ 53" "- (2 ^ 53) \<le> rne y"
    using rne_upper [of y "2 ^ 53"] rne_lower [of "- (2 ^ 53)" y] by simp_all
  then have "\<bar>rne y\<bar> \<le> 2 ^ 53"
    by (simp add: abs_le_iff)
  then have "\<bar>real_of_int (rne y)\<bar> \<le> 2 ^ 53"
    by (metis of_int_abs of_int_le_numeral_power_cancel_iff)
  then have "\<bar>of_int (rne (x / u)) * u\<bar> \<le> 2 ^ 53 * u"
    using u by (simp add: y_def [symmetric] abs_mult mult_right_mono)
  also have "\<dots> = 2 powi (k + 1)"
    by (simp add: u_def power_int_add power_int_diff)
  also have "\<dots> \<le> 2 powi 1023"
    by (rule power_int_increasing) (use assms(4) in simp_all)
  also have "\<dots> < (2::real) ^ 1024"
    by simp
  finally have "\<not> 2 ^ 1024 \<le> \<bar>of_int (rne (x / u)) * u\<bar>" by simp
  then show ?thesis
    using nz by (simp add: fl_def Let_def ulp_def b u_def)
qed

lemma fl_half_to_one:
  assumes "1 / 2 \<le> x" and "x < 1"
  shows "fl x = Fin (of_int (rne (x * 2 ^ 53)) / 2 ^ 53)"
  using fl_in_binade [of "- 1" x] assms by (simp add: power_int_minus field_simps)

lemma fl_one_to_two:
  assumes "1 \<le> x" and "x < 2"
  shows "fl x = Fin (of_int (rne (x * 2 ^ 52)) / 2 ^ 52)"
  using fl_in_binade [of 0 x] assms by (simp add: power_int_minus field_simps)

lemma fl_dyadic:
  assumes "\<bar>m\<bar> < 2 ^ 53" and "k \<le> 1074"
  shows "fl (of_int m / 2 ^ k) = Fin (of_int m / 2 ^ k)"
  using fl_exact [of "of_int m / 2 ^ k" m "- int k"] assms
  by (simp add: power_int_minus field_simps)

lemma fl_small_values [simp]:
  "fl 0 = Fin 0" "fl 1 = Fin 1" "fl 2 = Fin 2" "fl (1 / 2) = Fin (1 / 2)"
  using fl_dyadic [of 0 0] fl_dyadic [of 1 0] fl_dyadic [of 2 0] fl_dyadic [of 1 1] by simp_all


lemma fl_just_below_one: "fl (18014398509481983 / 18014398509481984) = Fin 1"
proof -
  have "rne (18014398509481983 / 18014398509481984 * 2 ^ 53) = 2 ^ 53"
    by (simp add: rne_def)
  then show ?thesis
    using fl_half_to_one [of "18014398509481983 / 18014398509481984"] by simp
qed

lemma fl_just_above_one: "fl (18014398509481985 / 18014398509481984) = Fin 1"
proof -
  have "rne (18014398509481985 / 18014398509481984 * 2 ^ 52) = 2 ^ 52"
    by (simp add: rne_def)
  then show ?thesis
    using fl_one_to_two [of "18014398509481985 / 18014398509481984"] by simp
qed

lemma upper_side:
  assumes "1 \<le> B" and "B \<le> 2"
  shows "\<exists>nb::int. fl B = Fin (of_int nb / 2 ^ 52) \<and> 2 ^ 52 \<le> nb \<and> nb \<le> 2 ^ 53
           \<and> \<bar>of_int nb - B * 2 ^ 52\<bar> \<le> 1 / 2"
proof (cases "B = 2")
  case True
  then show ?thesis
    by (intro exI [of _ "2 ^ 53"]) simp
next
  case False
  with assms have r: "1 \<le> B" "B < 2" by simp_all
  let ?n = "rne (B * 2 ^ 52)"
  have "of_int (2 ^ 52) \<le> B * 2 ^ 52" "B * 2 ^ 52 \<le> of_int (2 ^ 53)"
    using r by simp_all
  then have "2 ^ 52 \<le> ?n" "?n \<le> 2 ^ 53"
    using rne_lower [of "2 ^ 52" "B * 2 ^ 52"] rne_upper [of "B * 2 ^ 52" "2 ^ 53"] by simp_all
  then show ?thesis
    using fl_one_to_two [OF r] rne_error [of "B * 2 ^ 52"] by blast
qed

lemma lower_side:
  assumes "fl c = Fin c" and "0 \<le> c" and "c \<le> 1"
  shows "\<exists>na::int. fl (1 - c) = Fin (of_int na / 2 ^ 53) \<and> 0 \<le> na \<and> na \<le> 2 ^ 53
           \<and> \<bar>of_int na - (1 - c) * 2 ^ 53\<bar> \<le> 1 / 2"
proof -
  consider (zero) "c = 0" | (one) "c = 1" | (low) "0 < c" "c < 1 / 2" | (high) "1 / 2 \<le> c" "c < 1"
    using assms(2,3) by linarith
  then show ?thesis
  proof cases
    case zero
    then show ?thesis by (intro exI [of _ "2 ^ 53"]) simp
  next
    case one
    then show ?thesis by (intro exI [of _ 0]) simp
  next
    case low
    then have r: "1 / 2 \<le> 1 - c" "1 - c < 1" by simp_all
    let ?n = "rne ((1 - c) * 2 ^ 53)"
    have "of_int 0 \<le> (1 - c) * 2 ^ 53" "(1 - c) * 2 ^ 53 \<le> of_int (2 ^ 53)"
      using r by simp_all
    then have "0 \<le> ?n" "?n \<le> 2 ^ 53"
      using rne_lower [of 0 "(1 - c) * 2 ^ 53"] rne_upper [of "(1 - c) * 2 ^ 53" "2 ^ 53"]
      by simp_all
    then show ?thesis
      using fl_half_to_one [OF r] rne_error [of "(1 - c) * 2 ^ 53"] by blast
  next
    case high
    define nc where "nc = rne (c * 2 ^ 53)"
    have "c = of_int nc / 2 ^ 53"
      using fl_half_to_one [OF high] assms(1) by (simp add: nc_def)
    then have c: "c * 2 ^ 53 = of_int nc" by simp
    have "of_int (2 ^ 52) \<le> c * 2 ^ 53" "c * 2 ^ 53 \<le> of_int (2 ^ 53)"
      using high by simp_all
    then have n: "2 ^ 52 \<le> nc" "nc \<le> 2 ^ 53"
      unfolding c by (simp_all only: of_int_le_iff)
    let ?na = "2 ^ 53 - nc"
    have e: "1 - c = of_int ?na / 2 ^ 53"
      using c by (simp add: field_simps)
    have "fl (of_int ?na / 2 ^ 53) = Fin (of_int ?na / 2 ^ 53)"
      by (rule fl_dyadic) (use n in simp_all)
    then have "fl (1 - c) = Fin (of_int ?na / 2 ^ 53)"
      by (simp only: e [symmetric])
    moreover have "\<bar>of_int ?na - (1 - c) * 2 ^ 53\<bar> \<le> 1 / 2"
      using c by (simp add: field_simps)
    ultimately show ?thesis
      using n by (intro exI [of _ ?na]) simp
  qed
qed

lemma fl_half_of_grid:
  fixes n :: int
  assumes "0 \<le> n" and "n \<le> 2 ^ 53" and "k \<le> 1073"
  shows "fl (of_int n / 2 ^ k / 2) = Fin (of_int n / 2 ^ k / 2)"
proof (cases "n = 2 ^ 53")
  case True
  have "fl (of_int 1 / 2 ^ 0 * 2 powi (52 - int k)) = Fin (of_int 1 / 2 ^ 0 * 2 powi (52 - int k))"
    using assms(3) by (intro fl_exact [of _ 1 "52 - int k"]) simp_all
  moreover have "real_of_int n / 2 ^ k / 2 = 2 powi (52 - int k)"
    using True by (simp add: power_int_diff)
  ultimately show ?thesis by simp
next
  case False
  then have "\<bar>n\<bar> < 2 ^ 53" using assms(1,2) by simp
  then have "fl (of_int n / 2 ^ Suc k) = Fin (of_int n / 2 ^ Suc k)"
    by (rule fl_dyadic) (use assms(3) in simp)
  then show ?thesis by (simp add: field_simps)
qed

lemma gains_nonneg:
  assumes "fl c = Fin c" and "0 \<le> c" and "c \<le> 1"
  shows "\<exists>a b. fl (1 - c) = Fin a \<and> fl (1 + c) = Fin b
           \<and> fl (a / 2) = Fin (a / 2) \<and> fl (b / 2) = Fin (b / 2)
           \<and> fl (a / 2 + b / 2) = Fin 1
           \<and> 0 \<le> a \<and> a \<le> 1 \<and> 1 \<le> b \<and> b \<le> 2
           \<and> \<bar>a - (1 - c)\<bar> \<le> 1 / 2 ^ 54 \<and> \<bar>b - (1 + c)\<bar> \<le> 1 / 2 ^ 53"
proof -
  from lower_side [OF assms]
  obtain na :: int where na: "fl (1 - c) = Fin (of_int na / 2 ^ 53)" "0 \<le> na" "na \<le> 2 ^ 53"
    "\<bar>of_int na - (1 - c) * 2 ^ 53\<bar> \<le> 1 / 2"
    by blast
  have "1 \<le> 1 + c" "1 + c \<le> 2" using assms(2,3) by simp_all
  from upper_side [OF this]
  obtain nb :: int where nb: "fl (1 + c) = Fin (of_int nb / 2 ^ 52)" "2 ^ 52 \<le> nb" "nb \<le> 2 ^ 53"
    "\<bar>of_int nb - (1 + c) * 2 ^ 52\<bar> \<le> 1 / 2"
    by blast
  define a :: real where "a = of_int na / 2 ^ 53"
  define b :: real where "b = of_int nb / 2 ^ 52"
  have ha: "fl (a / 2) = Fin (a / 2)"
    unfolding a_def by (rule fl_half_of_grid) (use na in simp_all)
  have hb: "fl (b / 2) = Fin (b / 2)"
    unfolding b_def by (rule fl_half_of_grid) (use nb in simp_all)
  have ra: "0 \<le> a" "a \<le> 1"
    using na(2,3) by (simp_all add: a_def)
  have rb: "1 \<le> b" "b \<le> 2"
    using nb(2,3) by (simp_all add: b_def)
  have ea: "\<bar>a - (1 - c)\<bar> \<le> 1 / 2 ^ 54"
    using na(4) by (simp add: a_def field_simps)
  have eb: "\<bar>b - (1 + c)\<bar> \<le> 1 / 2 ^ 53"
    using nb(4) by (simp add: b_def field_simps)
  define N :: int where "N = na + 2 * nb"
  have S: "a / 2 + b / 2 = of_int N / 2 ^ 54"
    by (simp add: a_def b_def N_def field_simps)
  define u where "u = of_int na - (1 - c) * 2 ^ 53"
  define v where "v = of_int nb - (1 + c) * 2 ^ 52"
  have "real_of_int N - 2 ^ 54 = u + 2 * v"
    by (simp add: N_def u_def v_def algebra_simps)
  moreover have "\<bar>u\<bar> \<le> 1 / 2" "\<bar>v\<bar> \<le> 1 / 2"
    using na(4) nb(4) by (simp_all only: u_def v_def)
  ultimately have "\<bar>real_of_int N - 2 ^ 54\<bar> \<le> 3 / 2"
    by linarith
  then have "real_of_int \<bar>N - 2 ^ 54\<bar> < real_of_int 2"
    by simp
  then have "\<bar>N - 2 ^ 54\<bar> < 2"
    by (simp only: of_int_less_iff)
  then consider "N = 2 ^ 54 - 1" | "N = 2 ^ 54" | "N = 2 ^ 54 + 1"
    by linarith
  then have "fl (a / 2 + b / 2) = Fin 1"
  proof cases
    case 1
    then show ?thesis unfolding S using fl_just_below_one by simp
  next
    case 2
    then show ?thesis unfolding S by simp
  next
    case 3
    then show ?thesis unfolding S using fl_just_above_one by simp
  qed
  with na(1) nb(1) ha hb ra rb ea eb show ?thesis
    unfolding a_def [symmetric] b_def [symmetric] by blast
qed


lemma rne_minus: "rne (- y) = - rne y"
proof (cases "y = of_int \<lfloor>y\<rfloor>")
  case True
  then have "rne (- y) = rne (of_int (- \<lfloor>y\<rfloor>))"
    by simp
  also have "\<dots> = - \<lfloor>y\<rfloor>"
    by (rule rne_of_int)
  also have "\<dots> = - rne (of_int \<lfloor>y\<rfloor>)"
    by simp
  finally show ?thesis
    using True by simp
next
  case False
  define n where "n = \<lfloor>y\<rfloor>"
  define r where "r = y - of_int n"
  have f: "\<lfloor>- y\<rfloor> = - n - 1"
    using False by (simp add: floor_minus ceiling_altdef n_def)
  have y: "y = of_int n + r"
    by (simp add: r_def)
  have "rne (- y) = (if 1 - r < 1 / 2 then - n - 1 else if 1 / 2 < 1 - r then - n
                     else if even (- n - 1) then - n - 1 else - n)"
    unfolding rne_def Let_def f by (simp add: y)
  moreover have "rne y = (if r < 1 / 2 then n else if 1 / 2 < r then n + 1
                          else if even n then n else n + 1)"
    unfolding rne_def Let_def n_def [symmetric] by (simp add: y)
  ultimately show ?thesis
    by auto
qed

lemma ulp_minus: "ulp (- x) = ulp x"
  by (simp add: ulp_def binade_def)

lemma fl_minus: "fl (- x) = dneg (fl x)"
proof (cases "x = 0")
  case True
  then show ?thesis by (simp add: fl_def)
next
  case False
  define r where "r = of_int (rne (x / ulp x)) * ulp x"
  have "of_int (rne (- x / ulp (- x))) * ulp (- x) = - r"
    using rne_minus [of "x / ulp x"] by (simp add: ulp_minus r_def)
  then have "fl (- x) = (if 2 ^ 1024 \<le> \<bar>r\<bar> then Infty (0 < - r) else Fin (- r))"
    using False by (simp add: fl_def Let_def)
  moreover have "fl x = (if 2 ^ 1024 \<le> \<bar>r\<bar> then Infty (0 < r) else Fin r)"
    using False by (simp add: fl_def Let_def r_def)
  ultimately show ?thesis
    by auto
qed

lemma gains_sum:
  assumes "fl c = Fin c" and "- 1 \<le> c" and "c \<le> 1"
  shows "\<exists>n g. ddiv (dsub (Fin 1) (Fin c)) (Fin 2) = Fin n
           \<and> ddiv (dadd (Fin 1) (Fin c)) (Fin 2) = Fin g
           \<and> dadd (Fin n) (Fin g) = Fin 1
           \<and> 0 \<le> n \<and> n \<le> 1 \<and> 0 \<le> g \<and> g \<le> 1
           \<and> \<bar>n - (1 - c) / 2\<bar> \<le> 1 / 2 ^ 54 \<and> \<bar>g - (1 + c) / 2\<bar> \<le> 1 / 2 ^ 54"
proof (cases "0 \<le> c")
  case True
  from gains_nonneg [OF assms(1) True assms(3)]
  obtain a b where ab: "fl (1 - c) = Fin a" "fl (1 + c) = Fin b"
    "fl (a / 2) = Fin (a / 2)" "fl (b / 2) = Fin (b / 2)" "fl (a / 2 + b / 2) = Fin 1"
    "0 \<le> a" "a \<le> 1" "1 \<le> b" "b \<le> 2"
    "\<bar>a - (1 - c)\<bar> \<le> 1 / 2 ^ 54" "\<bar>b - (1 + c)\<bar> \<le> 1 / 2 ^ 53"
    by blast
  have "ddiv (dsub (Fin 1) (Fin c)) (Fin 2) = Fin (a / 2)"
    using ab(1,3) by (simp add: dsub_def)
  moreover have "ddiv (dadd (Fin 1) (Fin c)) (Fin 2) = Fin (b / 2)"
    using ab(2,4) by simp
  moreover have "dadd (Fin (a / 2)) (Fin (b / 2)) = Fin 1"
    using ab(5) by simp
  moreover have "\<bar>a / 2 - (1 - c) / 2\<bar> \<le> 1 / 2 ^ 54"
    using ab(10) by (simp add: abs_le_iff field_simps)
  moreover have "\<bar>b / 2 - (1 + c) / 2\<bar> \<le> 1 / 2 ^ 54"
    using ab(11) by (simp add: abs_le_iff field_simps)
  ultimately show ?thesis
    using ab(6-9) by (intro exI [of _ "a / 2"] exI [of _ "b / 2"]) simp
next
  case False
  define d where "d = - c"
  have d: "fl d = Fin d" "0 \<le> d" "d \<le> 1"
    using assms False fl_minus [of c] by (simp_all add: d_def)
  from gains_nonneg [OF d]
  obtain a b where ab: "fl (1 - d) = Fin a" "fl (1 + d) = Fin b"
    "fl (a / 2) = Fin (a / 2)" "fl (b / 2) = Fin (b / 2)" "fl (a / 2 + b / 2) = Fin 1"
    "0 \<le> a" "a \<le> 1" "1 \<le> b" "b \<le> 2"
    "\<bar>a - (1 - d)\<bar> \<le> 1 / 2 ^ 54" "\<bar>b - (1 + d)\<bar> \<le> 1 / 2 ^ 53"
    by blast
  have "ddiv (dsub (Fin 1) (Fin c)) (Fin 2) = Fin (b / 2)"
    using ab(2,4) by (simp add: dsub_def d_def)
  moreover have "ddiv (dadd (Fin 1) (Fin c)) (Fin 2) = Fin (a / 2)"
    using ab(1,3) by (simp add: d_def)
  moreover have "dadd (Fin (b / 2)) (Fin (a / 2)) = Fin 1"
    using ab(5) by (simp add: add.commute)
  moreover have "\<bar>b / 2 - (1 - c) / 2\<bar> \<le> 1 / 2 ^ 54"
    using ab(11) by (simp add: abs_le_iff field_simps d_def)
  moreover have "\<bar>a / 2 - (1 + c) / 2\<bar> \<le> 1 / 2 ^ 54"
    using ab(10) by (simp add: abs_le_iff field_simps d_def)
  ultimately show ?thesis
    using ab(6-9) by (intro exI [of _ "b / 2"] exI [of _ "a / 2"]) simp
qed

text \<open>The level of \<^verbatim>\<open>main\<close> and the gains it gives.\<close>

lemma main_level_eq: "main_level = Fin (- 3602879701896397 / 9007199254740992)"
proof -
  have "rne (2 / 5 / 2 powi (- 2 - 52)) = 7205759403792794"
    by (simp add: rne_def power_int_minus)
  then have "fl (2 / 5) = Fin (3602879701896397 / 9007199254740992)"
    using fl_in_binade [of "- 2" "2 / 5"] by (simp add: power_int_minus)
  then show ?thesis
    using fl_minus [of "2 / 5"] by (simp add: main_level_def)
qed

lemma main_level_is_double: "is_double main_level"
  unfolding main_level_eq is_double.simps
  using fl_dyadic [of "- 3602879701896397" 53] by simp

lemma main_level_gains:
  "ddiv (dsub (Fin 1) main_level) (Fin 2) = Fin (6305039478318694 / 9007199254740992)"
  "ddiv (dadd (Fin 1) main_level) (Fin 2) = Fin (5404319552844595 / 18014398509481984)"
proof -
  have "rne (12610078956637389 / 9007199254740992 * 2 ^ 52) = 6305039478318694"
    by (simp add: rne_def)
  then have "fl (12610078956637389 / 9007199254740992) = Fin (6305039478318694 / 4503599627370496)"
    using fl_one_to_two [of "12610078956637389 / 9007199254740992"] by simp
  moreover have "fl (6305039478318694 / 9007199254740992) = Fin (6305039478318694 / 9007199254740992)"
    using fl_dyadic [of 6305039478318694 53] by simp
  ultimately show "ddiv (dsub (Fin 1) main_level) (Fin 2) = Fin (6305039478318694 / 9007199254740992)"
    by (simp add: main_level_eq dsub_def)
  have "fl (5404319552844595 / 9007199254740992) = Fin (5404319552844595 / 9007199254740992)"
    using fl_dyadic [of 5404319552844595 53] by simp
  moreover have "fl (5404319552844595 / 18014398509481984) = Fin (5404319552844595 / 18014398509481984)"
    using fl_dyadic [of 5404319552844595 54] by simp
  ultimately show "ddiv (dadd (Fin 1) main_level) (Fin 2) = Fin (5404319552844595 / 18014398509481984)"
    by (simp add: main_level_eq)
qed

text \<open>
  At that level the network byte 10 is mixed to 7 and the network byte 90 to 62: the
  product with 90 is rounded to the double just below 63 before it is truncated.
\<close>

lemma main_level_bytes:
  "char_of_double (dmul (Fin (6305039478318694 / 9007199254740992)) (double_of_char 10)) = 7"
  "char_of_double (dmul (Fin (6305039478318694 / 9007199254740992)) (double_of_char 90)) = 62"
proof -
  have "rne (6305039478318694 / 9007199254740992 * 10 / 2 powi (2 - 52)) = 7881299347898368"
    by (simp add: rne_def power_int_minus)
  then have "fl (6305039478318694 / 9007199254740992 * 10) = Fin 7"
    using fl_in_binade [of 2 "6305039478318694 / 9007199254740992 * 10"]
    by (simp add: power_int_minus)
  then show "char_of_double (dmul (Fin (6305039478318694 / 9007199254740992)) (double_of_char 10)) = 7"
    by (simp add: double_of_char_def trunc0_def)
  have "rne (6305039478318694 / 9007199254740992 * 90 / 2 powi (5 - 52)) = 8866461766385663"
    by (simp add: rne_def power_int_minus)
  then have "fl (6305039478318694 / 9007199254740992 * 90)
      = Fin (8866461766385663 / 140737488355328)"
    using fl_in_binade [of 5 "6305039478318694 / 9007199254740992 * 90"]
    by (simp add: power_int_minus)
  then show "char_of_double (dmul (Fin (6305039478318694 / 9007199254740992)) (double_of_char 90)) = 62"
    by (simp add: double_of_char_def trunc0_def)
qed

subsection \<open>The gain law\<close>

lemma gains_at_ends:
  "ddiv (dsub (Fin 1) (Fin (- 1))) (Fin 2) = Fin 1"
  "ddiv (dadd (Fin 1) (Fin (- 1))) (Fin 2) = Fin 0"
  "ddiv (dsub (Fin 1) (Fin 1)) (Fin 2) = Fin 0"
  "ddiv (dadd (Fin 1) (Fin 1)) (Fin 2) = Fin 1"
  "ddiv (dsub (Fin 1) (Fin 0)) (Fin 2) = Fin (1 / 2)"
  "ddiv (dadd (Fin 1) (Fin 0)) (Fin 2) = Fin (1 / 2)"
  by (simp_all add: dsub_def)

lemma setMixingLevel_Fin:
  "setMixingLevel (Fin x) p =
     p\<lparr>networkLevel := ddiv (dsub (Fin 1) (Fin (max (- 1) (min 1 x)))) (Fin 2),
       playerLevel := ddiv (dadd (Fin 1) (Fin (max (- 1) (min 1 x)))) (Fin 2)\<rparr>"
proof -
  consider "x \<le> - 1" | "- 1 < x" "x < 1" | "1 \<le> x"
    by linarith
  then show ?thesis
  proof cases
    case 1
    then have "max (- 1) (min 1 x) = - 1" by simp
    with 1 show ?thesis
      by (simp add: setMixingLevel_def dge_def Let_def)
  next
    case 2
    then have "max (- 1) (min 1 x) = x" by simp
    with 2 show ?thesis
      by (simp add: setMixingLevel_def dge_def Let_def)
  next
    case 3
    then have "max (- 1) (min 1 x) = 1" by simp
    with 3 show ?thesis
      by (simp add: setMixingLevel_def dge_def Let_def)
  qed
qed

lemma setMixingLevel_Infty:
  "setMixingLevel (Infty s) p =
     p\<lparr>networkLevel := ddiv (dsub (Fin 1) (Fin (if s then 1 else - 1))) (Fin 2),
       playerLevel := ddiv (dadd (Fin 1) (Fin (if s then 1 else - 1))) (Fin 2)\<rparr>"
  by (simp add: setMixingLevel_def dge_def Let_def)

text \<open>
  For every level other than NaN, \<^verbatim>\<open>setMixingLevel\<close> clamps the level to \<open>[-1, 1]\<close>
  and stores the gains \<open>(1 - clamped) / 2\<close> and \<open>(1 + clamped) / 2\<close>, computed in
  doubles: each is within \<open>2^-54\<close> of the exact quotient and lies in \<open>[0, 1]\<close>, and
  their sum, computed in doubles, is exactly 1. At the clamped level -1 the file gain
  is 0, at 1 the network gain is 0, at 0 both are one half.
\<close>

lemma setMixingLevel_gains:
  assumes "is_double level" and "level \<noteq> NaN"
  shows "\<exists>c n g. - 1 \<le> c \<and> c \<le> 1
      \<and> (\<forall>x. level = Fin x \<longrightarrow> c = max (- 1) (min 1 x))
      \<and> (level = Infty True \<longrightarrow> c = 1) \<and> (level = Infty False \<longrightarrow> c = - 1)
      \<and> networkLevel (setMixingLevel level p) = Fin n
      \<and> playerLevel (setMixingLevel level p) = Fin g
      \<and> Fin n = ddiv (dsub (Fin 1) (Fin c)) (Fin 2)
      \<and> Fin g = ddiv (dadd (Fin 1) (Fin c)) (Fin 2)
      \<and> dadd (Fin n) (Fin g) = Fin 1
      \<and> 0 \<le> n \<and> n \<le> 1 \<and> 0 \<le> g \<and> g \<le> 1
      \<and> \<bar>n - (1 - c) / 2\<bar> \<le> 1 / 2 ^ 54 \<and> \<bar>g - (1 + c) / 2\<bar> \<le> 1 / 2 ^ 54
      \<and> (c = - 1 \<longrightarrow> n = 1 \<and> g = 0) \<and> (c = 1 \<longrightarrow> n = 0 \<and> g = 1)
      \<and> (c = 0 \<longrightarrow> n = 1 / 2 \<and> g = 1 / 2)"
proof -
  define c where "c = (case level of Fin x \<Rightarrow> max (- 1) (min 1 x)
                        | Infty s \<Rightarrow> (if s then 1 else - 1) | NaN \<Rightarrow> 0)"
  have range: "- 1 \<le> c" "c \<le> 1"
    by (simp_all add: c_def split: double.split)
  have set: "setMixingLevel level p =
      p\<lparr>networkLevel := ddiv (dsub (Fin 1) (Fin c)) (Fin 2),
        playerLevel := ddiv (dadd (Fin 1) (Fin c)) (Fin 2)\<rparr>"
    using assms(2) by (cases level) (simp_all add: c_def setMixingLevel_Fin setMixingLevel_Infty)
  have "fl (- 1) = Fin (- 1)"
    using fl_minus [of 1] by simp
  then have rep: "fl c = Fin c"
    using assms(1) by (cases level) (auto simp: c_def max_def min_def)
  from gains_sum [OF rep range]
  obtain n g where ng: "ddiv (dsub (Fin 1) (Fin c)) (Fin 2) = Fin n"
    "ddiv (dadd (Fin 1) (Fin c)) (Fin 2) = Fin g" "dadd (Fin n) (Fin g) = Fin 1"
    "0 \<le> n" "n \<le> 1" "0 \<le> g" "g \<le> 1"
    "\<bar>n - (1 - c) / 2\<bar> \<le> 1 / 2 ^ 54" "\<bar>g - (1 + c) / 2\<bar> \<le> 1 / 2 ^ 54"
    by blast
  have lo: "n = 1 \<and> g = 0" if "c = - 1"
    using ng(1,2) gains_at_ends(1,2) unfolding that by simp
  have hi: "n = 0 \<and> g = 1" if "c = 1"
    using ng(1,2) gains_at_ends(3,4) unfolding that by simp
  have mid: "n = 1 / 2 \<and> g = 1 / 2" if "c = 0"
    using ng(1,2) gains_at_ends(5,6) unfolding that by simp
  have shape: "(\<forall>x. level = Fin x \<longrightarrow> c = max (- 1) (min 1 x))
      \<and> (level = Infty True \<longrightarrow> c = 1) \<and> (level = Infty False \<longrightarrow> c = - 1)"
    by (simp add: c_def)
  have "networkLevel (setMixingLevel level p) = Fin n"
    "playerLevel (setMixingLevel level p) = Fin g"
    unfolding set ng(1,2) by simp_all
  with range shape ng lo hi mid show ?thesis
    by (intro exI [of _ c] exI [of _ n] exI [of _ g]) simp
qed

text \<open>The call \<^verbatim>\<open>main\<close> makes, \<^verbatim>\<open>setMixingLevel(-0.4)\<close>.\<close>

lemma setMixingLevel_main_level:
  "networkLevel (setMixingLevel main_level p) = Fin (6305039478318694 / 9007199254740992)"
  "playerLevel (setMixingLevel main_level p) = Fin (5404319552844595 / 18014398509481984)"
proof -
  have "setMixingLevel main_level p =
      p\<lparr>networkLevel := ddiv (dsub (Fin 1) main_level) (Fin 2),
        playerLevel := ddiv (dadd (Fin 1) main_level) (Fin 2)\<rparr>"
    unfolding main_level_eq setMixingLevel_Fin by (simp add: max_def min_def)
  then show "networkLevel (setMixingLevel main_level p)
      = Fin (6305039478318694 / 9007199254740992)"
    and "playerLevel (setMixingLevel main_level p)
      = Fin (5404319552844595 / 18014398509481984)"
    by (simp_all add: main_level_gains)
qed

text \<open>
  Claim C3: every value passed to \<^verbatim>\<open>setMixingLevel\<close> is clamped to \<open>[-1, 1]\<close>, and the
  gains are \<open>(1 - clamped) / 2\<close> and \<open>(1 + clamped) / 2\<close>, in \<open>[0, 1]\<close> and of sum 1. The
  code does this for every level but NaN (lemma \<open>setMixingLevel_gains\<close>). For NaN both
  comparisons of the clamping are false, the level stays NaN and both gains are NaN:
  neither lies in \<open>[0, 1]\<close>, and their sum is not 1.
\<close>

theorem setMixingLevel_NaN:
  "networkLevel (setMixingLevel NaN blank) = NaN
   \<and> playerLevel (setMixingLevel NaN blank) = NaN
   \<and> \<not> dle (Fin 0) (networkLevel (setMixingLevel NaN blank))
   \<and> \<not> dle (networkLevel (setMixingLevel NaN blank)) (Fin 1)
   \<and> \<not> dle (Fin 0) (playerLevel (setMixingLevel NaN blank))
   \<and> \<not> dle (playerLevel (setMixingLevel NaN blank)) (Fin 1)
   \<and> dadd (networkLevel (setMixingLevel NaN blank)) (playerLevel (setMixingLevel NaN blank))
       \<noteq> Fin 1"
  by (simp add: setMixingLevel_def dge_def dsub_def)

subsection \<open>Reading\<close>

lemma length_sample_bytes: "length (sample_bytes xs) = 2 * length xs"
  by (induction xs) (simp_all add: sample_bytes_def int16_to_bytes_def)

lemma sample_bytes_append: "sample_bytes (xs @ ys) = sample_bytes xs @ sample_bytes ys"
  by (simp add: sample_bytes_def)

lemma granted_le: "granted r maxBytes \<le> length (m_saw r) - m_sawIndex r"
  unfolding granted_def by arith

lemma NetworkReader_read_eq:
  "NetworkReader_read r buf maxBytes =
     (2 * granted r maxBytes,
      sample_bytes (take (granted r maxBytes) (drop (m_sawIndex r) (m_saw r)))
        @ drop (2 * granted r maxBytes) buf,
      r\<lparr>m_sawIndex := m_sawIndex r + granted r maxBytes\<rparr>)"
proof (cases "length (m_saw r) - m_sawIndex r = 0")
  case True
  then have "granted r maxBytes = 0" by (simp add: granted_def)
  with True show ?thesis
    by (simp add: NetworkReader_read_def sample_bytes_def)
next
  case False
  have "length (take (granted r maxBytes) (drop (m_sawIndex r) (m_saw r))) = granted r maxBytes"
    using granted_le [of r maxBytes] by simp
  then have "length (sample_bytes (take (granted r maxBytes) (drop (m_sawIndex r) (m_saw r))))
      = 2 * granted r maxBytes"
    by (simp only: length_sample_bytes)
  with False show ?thesis
    by (simp add: NetworkReader_read_def Let_def copy_n_def granted_def [symmetric]
        sample_bytes_def [symmetric])
qed

lemma Player_read_as_NetworkReader_read:
  "Player_read p buf maxBytes =
     (case NetworkReader_read \<lparr>m_saw = p_saw p, m_sawIndex = p_sawIndex p\<rparr> buf maxBytes of
        (n, buf', r) \<Rightarrow> (n, buf', p\<lparr>p_sawIndex := m_sawIndex r\<rparr>))"
  by (simp add: Player_read_def NetworkReader_read_def Let_def)

lemma granted_zero_iff:
  "granted r maxBytes = 0 \<longleftrightarrow> length (m_saw r) \<le> m_sawIndex r \<or> maxBytes < 2"
  unfolding granted_def by arith

text \<open>The bytes of the samples loaded from a file are the bytes of the file.\<close>

lemma int16_bytes_roundtrip: "int16_to_bytes (int16_of_bytes lo hi) = [lo, hi]"
proof -
  have lo: "unat lo < 256" and hi: "unat hi < 256"
    using unsigned_less [of lo, where ?'a = nat] unsigned_less [of hi, where ?'a = nat]
    by simp_all
  define n where "n = unat lo + 256 * unat hi"
  have n: "n < 65536" using lo hi by (simp add: n_def)
  have u: "unat (word_of_nat n :: int16) = n"
    using n by (simp add: unat_of_nat)
  have "unat (ucast (word_of_nat n :: int16) :: byte) = n mod 256"
    by (simp add: unsigned_ucast_eq u take_bit_eq_mod)
  also have "\<dots> = unat lo"
    using lo by (simp add: n_def)
  finally have a: "(ucast (word_of_nat n :: int16) :: byte) = lo"
    by (simp only: word_unat_eq_iff)
  have "unat (drop_bit 8 (word_of_nat n :: int16)) = n div 256"
    by (simp only: unat_drop_bit_eq u) (simp add: drop_bit_eq_div)
  also have "\<dots> = unat hi"
    using lo by (simp add: n_def)
  finally have d: "unat (drop_bit 8 (word_of_nat n :: int16)) = unat hi" .
  have "unat (ucast (drop_bit 8 (word_of_nat n :: int16)) :: byte) = unat hi"
    using hi by (simp add: unsigned_ucast_eq d take_bit_eq_mod)
  then have b: "(ucast (drop_bit 8 (word_of_nat n :: int16)) :: byte) = hi"
    by (simp only: word_unat_eq_iff)
  show ?thesis
    unfolding int16_to_bytes_def int16_of_bytes_def n_def [symmetric] using a b by simp
qed

lemma sample_bytes_int16s_of_bytes:
  "sample_bytes (int16s_of_bytes bytes) = take (2 * (length bytes div 2)) bytes"
  by (induction bytes rule: int16s_of_bytes.induct)
     (simp_all add: sample_bytes_def int16_bytes_roundtrip)

subsection \<open>The mixing loops\<close>

lemma length_mix_network [simp]:
  "length (mix_network level buf n i pos m) = length m"
  by (induction level buf n i pos m rule: mix_network.induct)
     (subst mix_network.simps, simp add: Let_def)

lemma length_mix_player [simp]:
  "length (mix_player level buf n i pos m) = length m"
  by (induction level buf n i pos m rule: mix_player.induct)
     (subst mix_player.simps, simp add: Let_def)

lemma nth_mix_network:
  "pos = 2 * i \<Longrightarrow> j < length m \<Longrightarrow>
   mix_network level buf n i pos m ! j =
     (if 2 * i \<le> j \<and> j < 2 * n
      then char_of_double (dmul level (double_of_char (buf ! (j div 2))))
      else m ! j)"
proof (induction level buf n i pos m rule: mix_network.induct)
  case (1 level buf n i pos m)
  show ?case
  proof (cases "i < n")
    case False
    then have eq: "mix_network level buf n i pos m = m"
      by (subst mix_network.simps) simp
    from False have "\<not> (2 * i \<le> j \<and> j < 2 * n)" by arith
    then show ?thesis
      unfolding eq by (simp only: if_False)
  next
    case True
    let ?c = "char_of_double (dmul level (double_of_char (buf ! i)))"
    let ?m = "m[pos := ?c, pos + 1 := ?c]"
    have step: "mix_network level buf n i pos m = mix_network level buf n (i + 1) (pos + 1 + 1) ?m"
      using True by (subst mix_network.simps) (simp add: Let_def)
    have ih: "mix_network level buf n (i + 1) (pos + 1 + 1) ?m ! j =
        (if 2 * (i + 1) \<le> j \<and> j < 2 * n
         then char_of_double (dmul level (double_of_char (buf ! (j div 2))))
         else ?m ! j)"
      using "1.IH" [OF True refl refl refl refl refl] "1.prems" by simp
    have "j = 2 * i \<or> j = 2 * i + 1 \<or> j < 2 * i \<or> 2 * (i + 1) \<le> j"
      by arith
    then consider (lo) "j = 2 * i" | (hi) "j = 2 * i + 1" | (before) "j < 2 * i"
      | (after) "2 * (i + 1) \<le> j"
      by blast
    then show ?thesis
    proof cases
      case lo
      then show ?thesis
        unfolding step ih using "1.prems" True by (simp add: nth_list_update)
    next
      case hi
      then show ?thesis
        unfolding step ih using "1.prems" True by (simp add: nth_list_update)
    next
      case before
      then show ?thesis
        unfolding step ih using "1.prems" True by (simp add: nth_list_update)
    next
      case after
      then show ?thesis
        unfolding step ih using "1.prems" True by (simp add: nth_list_update)
    qed
  qed
qed

lemma nth_mix_player:
  "pos = 2 * i \<Longrightarrow> j < length m \<Longrightarrow>
   mix_player level buf n i pos m ! j =
     (if 2 * i \<le> j \<and> j < 2 * n
      then m ! j + char_of_double (dmul level (double_of_char (buf ! (j div 2))))
      else m ! j)"
proof (induction level buf n i pos m rule: mix_player.induct)
  case (1 level buf n i pos m)
  show ?case
  proof (cases "i < n")
    case False
    then have eq: "mix_player level buf n i pos m = m"
      by (subst mix_player.simps) simp
    from False have "\<not> (2 * i \<le> j \<and> j < 2 * n)" by arith
    then show ?thesis
      unfolding eq by (simp only: if_False)
  next
    case True
    let ?c = "char_of_double (dmul level (double_of_char (buf ! i)))"
    let ?m1 = "m[pos := m ! pos + ?c]"
    let ?m = "?m1[pos + 1 := ?m1 ! (pos + 1) + ?c]"
    have step: "mix_player level buf n i pos m = mix_player level buf n (i + 1) (pos + 1 + 1) ?m"
      using True by (subst mix_player.simps) (simp add: Let_def)
    have ih: "mix_player level buf n (i + 1) (pos + 1 + 1) ?m ! j =
        (if 2 * (i + 1) \<le> j \<and> j < 2 * n
         then ?m ! j + char_of_double (dmul level (double_of_char (buf ! (j div 2))))
         else ?m ! j)"
      using "1.IH" [OF True refl refl refl refl refl] "1.prems" by simp
    have "j = 2 * i \<or> j = 2 * i + 1 \<or> j < 2 * i \<or> 2 * (i + 1) \<le> j"
      by arith
    then consider (lo) "j = 2 * i" | (hi) "j = 2 * i + 1" | (before) "j < 2 * i"
      | (after) "2 * (i + 1) \<le> j"
      by blast
    then show ?thesis
    proof cases
      case lo
      then show ?thesis
        unfolding step ih using "1.prems" True by (simp add: nth_list_update)
    next
      case hi
      then show ?thesis
        unfolding step ih using "1.prems" True by (simp add: nth_list_update)
    next
      case before
      then show ?thesis
        unfolding step ih using "1.prems" True by (simp add: nth_list_update)
    next
      case after
      then show ?thesis
        unfolding step ih using "1.prems" True by (simp add: nth_list_update)
    qed
  qed
qed

subsection \<open>Output streams\<close>

lemma ofstream_write_eq:
  "fst (ofstream_write n s) = accepts s"
  "accepts (snd (ofstream_write n s)) = accepts s"
  "is_open (snd (ofstream_write n s)) = is_open s"
  by (simp_all add: ofstream_write_def accepts_def)

lemma ofstream_open_eq:
  "fst (ofstream_open s) = (\<not> is_open s)"
  "accepts (snd (ofstream_open s)) = (\<not> is_open s)"
  "is_open (snd (ofstream_open s))"
  by (simp_all add: ofstream_open_def accepts_def)

subsection \<open>One cycle\<close>

lemma play_read_eq:
  "play_read p =
     (fst (net_read p), fst (file_read p),
      p\<lparr>paused := False, nr := snd (snd (net_read p)), networkBuffer := fst (snd (net_read p)),
        p_sawIndex := m_sawIndex (snd (snd (file_read p))),
        playerBuffer := fst (snd (file_read p))\<rparr>)"
  by (simp add: play_read_def Player_read_as_NetworkReader_read net_read_def file_read_def
      Let_def split_beta)

lemma play_write_eq:
  "play_write networkRead playerRead p =
     p\<lparr>stopWatch_reads := Suc (stopWatch_reads p),
       stats_stream := snd (ofstream_write 1 (stats_stream p)),
       stats := stats p @ (if accepts (stats_stream p)
                           then [(stopWatch p (stopWatch_reads p), writtenSamples p)] else []),
       sink_stream := snd (ofstream_write (2 * (networkRead + playerRead)) (sink_stream p)),
       sink := sink p @ (if accepts (sink_stream p)
                         then take (2 * (networkRead + playerRead)) (mix p) else [])\<rparr>"
  by (simp add: play_write_def elapsed_def ofstream_write_eq Let_def split_beta)

lemma play_cycle_eq:
  "play_cycle p =
     (fst (net_read p), fst (file_read p),
      p\<lparr>paused := False, nr := snd (snd (net_read p)), networkBuffer := fst (snd (net_read p)),
        p_sawIndex := m_sawIndex (snd (snd (file_read p))),
        playerBuffer := fst (snd (file_read p)),
        allocs := Suc (allocs p),
        mix := mixed p,
        writtenSamples := counted p,
        stopWatch_reads := Suc (stopWatch_reads p),
        stats_stream := snd (ofstream_write 1 (stats_stream p)),
        stats := stats p @ (if accepts (stats_stream p)
                            then [(stopWatch p (stopWatch_reads p), counted p)] else []),
        sink_stream :=
          snd (ofstream_write (2 * (fst (net_read p) + fst (file_read p))) (sink_stream p)),
        sink := sink p @ (if accepts (sink_stream p)
                          then take (2 * (fst (net_read p) + fst (file_read p))) (mixed p)
                          else [])\<rparr>)"
  by (simp add: play_cycle_def play_read_eq play_mix_def play_write_eq new_chars_def
      mixed_def counted_def Let_def split_beta)

lemma length_mixed: "length (mixed p) = 2 * (fst (net_read p) + fst (file_read p))"
  by (simp add: mixed_def)

lemma cycle_state_eq:
  "cycle_state p =
      p\<lparr>paused := False, nr := snd (snd (net_read p)), networkBuffer := fst (snd (net_read p)),
        p_sawIndex := m_sawIndex (snd (snd (file_read p))),
        playerBuffer := fst (snd (file_read p)),
        allocs := Suc (allocs p),
        mix := mixed p,
        writtenSamples := counted p,
        stopWatch_reads := Suc (stopWatch_reads p),
        stats_stream := snd (ofstream_write 1 (stats_stream p)),
        stats := stats p @ (if accepts (stats_stream p)
                            then [(stopWatch p (stopWatch_reads p), counted p)] else []),
        sink_stream :=
          snd (ofstream_write (2 * (fst (net_read p) + fst (file_read p))) (sink_stream p)),
        sink := sink p @ (if accepts (sink_stream p) then mixed p else [])\<rparr>"
  by (simp add: cycle_state_def play_cycle_eq length_mixed)

lemma play_cycle_cycle_state:
  "play_cycle p = (fst (net_read p), fst (file_read p), cycle_state p)"
  by (simp add: cycle_state_def play_cycle_eq)

lemma net_read_eq:
  "net_read p =
     (2 * granted (nr p) (networkBytes p),
      sample_bytes (take (granted (nr p) (networkBytes p)) (drop (m_sawIndex (nr p)) (m_saw (nr p))))
        @ drop (2 * granted (nr p) (networkBytes p)) (networkBuffer p),
      (nr p)\<lparr>m_sawIndex := m_sawIndex (nr p) + granted (nr p) (networkBytes p)\<rparr>)"
  by (simp add: net_read_def NetworkReader_read_eq)

lemma file_read_eq:
  "file_read p =
     (2 * granted (file_stream p) (playerBytes p),
      sample_bytes (take (granted (file_stream p) (playerBytes p)) (drop (p_sawIndex p) (p_saw p)))
        @ drop (2 * granted (file_stream p) (playerBytes p)) (playerBuffer p),
      \<lparr>m_saw = p_saw p, m_sawIndex = p_sawIndex p + granted (file_stream p) (playerBytes p)\<rparr>)"
  by (simp add: file_read_def NetworkReader_read_eq file_stream_def)

lemma nth_mixed:
  assumes "j < 2 * (fst (net_read p) + fst (file_read p))"
  shows "mixed p ! j =
     (if j < 2 * fst (net_read p)
      then char_of_double
             (dmul (networkLevel p) (double_of_char (fst (snd (net_read p)) ! (j div 2))))
      else heap p (allocs p) j)
     + (if j < 2 * fst (file_read p)
        then char_of_double
               (dmul (playerLevel p) (double_of_char (fst (snd (file_read p)) ! (j div 2))))
        else 0)"
  using assms by (simp add: mixed_def nth_mix_player nth_mix_network)

subsection \<open>Opening\<close>

lemma Player_open_eq:
  "Player_open networkUrl filename fs p =
     ([open_op (\<not> is_open (sink_stream p)) ''audio_output.raw'',
       open_op (\<not> is_open (stats_stream p)) ''realtime_stats.txt'',
       Open_read ''audio1_s16le_mono_48k.raw''],
      case fs ''audio1_s16le_mono_48k.raw'' of
        None \<Rightarrow> Exit 1
      | Some bytes \<Rightarrow>
          Running (p\<lparr>sink_stream := snd (ofstream_open (sink_stream p)),
                     sink := (if is_open (sink_stream p) then sink p else []),
                     sink_file := (if is_open (sink_stream p) then sink_file p
                                   else ''audio_output.raw''),
                     stats_stream := snd (ofstream_open (stats_stream p)),
                     stats := (if is_open (stats_stream p) then stats p else []),
                     stats_file := (if is_open (stats_stream p) then stats_file p
                                    else ''realtime_stats.txt''),
                     networkBytes := 144,
                     networkBuffer := map (heap p (allocs p)) [0..<144],
                     playerBytes := 144,
                     playerBuffer := map (heap p (Suc (allocs p))) [0..<144],
                     allocs := Suc (Suc (allocs p)),
                     p_saw := int16s_of_bytes bytes,
                     networkLevel := Fin (1 / 2), playerLevel := Fin (1 / 2)\<rparr>))"
proof -
  have s: "setMixingLevel (Fin 0) q = q\<lparr>networkLevel := Fin (1 / 2), playerLevel := Fin (1 / 2)\<rparr>"
    for q
    by (simp add: setMixingLevel_Fin gains_at_ends)
  show ?thesis
    by (cases "is_open (sink_stream p)"; cases "is_open (stats_stream p)")
       (simp_all add: Player_open_def ofstream_open_def new_chars_def init_def s Let_def
          split: option.split del: upt_rec_numeral)
qed

lemma main_open_input_files:
  "main_open (input_files network_bytes file_bytes) mem =
     Running (mem\<lparr>nr := \<lparr>m_saw = int16s_of_bytes network_bytes, m_sawIndex = 0\<rparr>,
                   sink_stream := \<lparr>is_open = True, failed = False\<rparr>,
                   sink := [], sink_file := ''audio_output.raw'',
                   stats_stream := \<lparr>is_open = True, failed = False\<rparr>,
                   stats := [], stats_file := ''realtime_stats.txt'',
                   p_saw := int16s_of_bytes file_bytes, p_sawIndex := 0,
                   networkBytes := 144,
                   networkBuffer := map (heap mem (allocs mem)) [0..<144],
                   playerBytes := 144,
                   playerBuffer := map (heap mem (Suc (allocs mem))) [0..<144],
                   allocs := Suc (Suc (allocs mem)),
                   networkLevel := Fin (1 / 2), playerLevel := Fin (1 / 2)\<rparr>)"
  by (simp add: main_open_def Player_new_def NetworkReader_new_def initWaveform_def
      input_files_def Player_open_eq ofstream_open_def del: upt_rec_numeral)

lemma opened_eq:
  "opened network_bytes file_bytes =
     blank\<lparr>nr := \<lparr>m_saw = int16s_of_bytes network_bytes, m_sawIndex = 0\<rparr>,
           sink_stream := \<lparr>is_open = True, failed = False\<rparr>,
           sink_file := ''audio_output.raw'',
           stats_stream := \<lparr>is_open = True, failed = False\<rparr>,
           stats_file := ''realtime_stats.txt'',
           p_saw := int16s_of_bytes file_bytes,
           networkBytes := 144, networkBuffer := replicate 144 170,
           playerBytes := 144, playerBuffer := replicate 144 170,
           allocs := 2, networkLevel := Fin (1 / 2), playerLevel := Fin (1 / 2)\<rparr>"
  unfolding opened_def main_open_input_files
  by (simp add: blank_def map_replicate_const del: upt_rec_numeral)

lemma opened_accepts:
  "accepts (sink_stream (opened network_bytes file_bytes))"
  "accepts (stats_stream (opened network_bytes file_bytes))"
  by (simp_all add: opened_eq accepts_def)

subsection \<open>Mixing\<close>

lemma take_net_read_buffer:
  "take (fst (net_read p)) (fst (snd (net_read p))) =
     sample_bytes (take (fst (net_read p) div 2) (drop (m_sawIndex (nr p)) (m_saw (nr p))))"
proof -
  let ?g = "granted (nr p) (networkBytes p)"
  have "length (take ?g (drop (m_sawIndex (nr p)) (m_saw (nr p)))) = ?g"
    using granted_le [of "nr p" "networkBytes p"] by simp
  then have "length (sample_bytes (take ?g (drop (m_sawIndex (nr p)) (m_saw (nr p))))) = 2 * ?g"
    by (simp only: length_sample_bytes)
  then show ?thesis
    by (simp add: net_read_eq)
qed

lemma take_file_read_buffer:
  "take (fst (file_read p)) (fst (snd (file_read p))) =
     sample_bytes (take (fst (file_read p) div 2) (drop (p_sawIndex p) (p_saw p)))"
proof -
  let ?g = "granted (file_stream p) (playerBytes p)"
  have "length (take ?g (drop (p_sawIndex p) (p_saw p))) = ?g"
    using granted_le [of "file_stream p" "playerBytes p"] by (simp add: file_stream_def)
  then have "length (sample_bytes (take ?g (drop (p_sawIndex p) (p_saw p)))) = 2 * ?g"
    by (simp only: length_sample_bytes)
  then show ?thesis
    by (simp add: file_read_eq)
qed

lemma play_cycle_results:
  assumes "play_cycle p = (networkRead, playerRead, p')"
  shows "networkRead = fst (net_read p)" and "playerRead = fst (file_read p)"
    and "p' = cycle_state p"
  using assms by (simp_all add: play_cycle_cycle_state)

lemma opened_simple_net_read:
  "net_read (opened [2, 1] [0, 0]) =
     (2, [2, 1] @ replicate 142 170, \<lparr>m_saw = [258], m_sawIndex = 1\<rparr>)"
  by (simp add: net_read_eq opened_eq granted_def int16_of_bytes_def sample_bytes_def
      int16_to_bytes_def)

lemma opened_simple_file_read:
  "file_read (opened [2, 1] [0, 0]) =
     (2, [0, 0] @ replicate 142 170, \<lparr>m_saw = [0], m_sawIndex = 1\<rparr>)"
  by (simp add: file_read_eq file_stream_def opened_eq blank_def granted_def int16_of_bytes_def
      sample_bytes_def int16_to_bytes_def)

lemma opened_simple_mixed:
  "mixed (opened [2, 1] [0, 0]) = [1, 1, 0, 0, 170, 170, 170, 170]"
proof (rule nth_equalityI)
  let ?P = "opened [2, 1] [0, 0]"
  show l: "length (mixed ?P) = length [1, 1, 0, 0, 170, 170, 170, 170 :: byte]"
    by (simp add: length_mixed opened_simple_net_read opened_simple_file_read)
  have g: "networkLevel ?P = Fin (1 / 2)" "playerLevel ?P = Fin (1 / 2)"
    "heap ?P (allocs ?P) = (\<lambda>i. 170)"
    by (simp_all add: opened_eq blank_def)
  have m: "mixed ?P ! j =
     (if j < 4 then char_of_double (dmul (Fin (1 / 2))
                      (double_of_char (([2, 1] @ replicate 142 170) ! (j div 2))))
      else 170)
     + (if j < 4 then char_of_double (dmul (Fin (1 / 2))
                        (double_of_char (([0, 0] @ replicate 142 170) ! (j div 2))))
        else 0)" if "j < 8" for j
    using that nth_mixed [of j ?P]
    by (simp add: opened_simple_net_read opened_simple_file_read g)
  fix pos
  assume "pos < length (mixed ?P)"
  then have "pos < 8"
    by (simp add: l)
  then have "pos \<in> {0, 1, 2, 3, 4, 5, 6, 7}"
    by auto
  then show "mixed ?P ! pos = [1, 1, 0, 0, 170, 170, 170, 170] ! pos"
    by (auto simp: m double_of_char_def trunc0_def)
qed

text \<open>
  Claim C1: for each sample index the output is the 16-bit sample
  \<open>round (networkGain * networkSample + localGain * localSample)\<close>, clamped, written as a
  frame of two equal channels. The code departs from it, and from its own comments (the
  format read is S16LE; level 0 means 50% of each source; \<open>compute weighted sum\<close>,
  \<open>make it stereo\<close>): both loops run over the bytes of the buffers, not over their
  samples, and write each product twice as a byte. On a network file holding the sample
  258 and a local file holding the sample 0, at level 0, the first four bytes written are
  1, 1, 0, 0; the frame of the claim is the sample 129 twice, the bytes 129, 0, 129, 0.
\<close>

theorem play_mixes_bytes_not_samples:
  "m_saw (nr (opened [2, 1] [0, 0])) = [258]
   \<and> p_saw (opened [2, 1] [0, 0]) = [0]
   \<and> networkLevel (opened [2, 1] [0, 0]) = Fin (1 / 2)
   \<and> playerLevel (opened [2, 1] [0, 0]) = Fin (1 / 2)
   \<and> sink (opened [2, 1] [0, 0]) = []
   \<and> take 4 (sink (cycle_state (opened [2, 1] [0, 0]))) = [1, 1, 0, 0]
   \<and> spec_MixFrame (1 / 2) (1 / 2) 258 0 = [129, 0, 129, 0]"
proof -
  let ?P = "opened [2, 1] [0, 0]"
  have e: "m_saw (nr ?P) = [258]" "p_saw ?P = [0]" "networkLevel ?P = Fin (1 / 2)"
    "playerLevel ?P = Fin (1 / 2)" "sink ?P = []"
    by (simp_all add: opened_eq blank_def int16_of_bytes_def)
  have "sink (cycle_state ?P) = mixed ?P"
    by (simp add: cycle_state_eq opened_accepts e)
  then have s: "take 4 (sink (cycle_state ?P)) = [1, 1, 0, 0]"
    by (simp add: opened_simple_mixed)
  have f: "spec_MixFrame (1 / 2) (1 / 2) 258 0 = [129, 0, 129, 0]"
    by (simp add: spec_MixFrame_def spec_mixed_def int16_to_bytes_def round_def)
  from e s f show ?thesis by simp
qed

subsection \<open>The length of a cycle's output\<close>

lemma ten_samples_vector:
  "int16s_of_bytes ten_samples = [10, 20, 30, 40, 50, 60, 70, 80, 90, 100]"
  by (simp add: ten_samples_def int16_of_bytes_def)

lemma six_samples_vector:
  "int16s_of_bytes six_samples = [1, 2, 3, 4, 5, 6]"
  by (simp add: six_samples_def int16_of_bytes_def)

lemma opened_ten_six_granted:
  "granted (nr (opened ten_samples six_samples)) 144 = 10"
  "granted (file_stream (opened ten_samples six_samples)) 144 = 6"
  by (simp_all add: opened_eq blank_def file_stream_def granted_def ten_samples_vector
      six_samples_vector)


lemma opened_ten_six_net_read:
  "fst (net_read (opened ten_samples six_samples)) = 20"
  "fst (snd (net_read (opened ten_samples six_samples))) ! 12 = 70"
proof -
  let ?P = "opened ten_samples six_samples"
  have n: "networkBytes ?P = 144" "m_saw (nr ?P) = [10, 20, 30, 40, 50, 60, 70, 80, 90, 100]"
    "m_sawIndex (nr ?P) = 0"
    by (simp_all add: opened_eq ten_samples_vector)
  show "fst (net_read ?P) = 20"
    by (simp add: net_read_eq n opened_ten_six_granted)
  have "fst (snd (net_read ?P)) =
      sample_bytes [10, 20, 30, 40, 50, 60, 70, 80, 90, 100] @ drop 20 (networkBuffer ?P)"
    by (simp add: net_read_eq n opened_ten_six_granted)
  moreover have "sample_bytes [10, 20, 30, 40, 50, 60, 70, 80, 90, 100] = ten_samples"
    by (simp add: sample_bytes_def int16_to_bytes_def ten_samples_def)
  ultimately show "fst (snd (net_read ?P)) ! 12 = 70"
    by (simp add: ten_samples_def)
qed

lemma opened_ten_six_file_read:
  "fst (file_read (opened ten_samples six_samples)) = 12"
proof -
  let ?P = "opened ten_samples six_samples"
  have "playerBytes ?P = 144"
    by (simp add: opened_eq)
  then show ?thesis
    by (simp add: file_read_eq opened_ten_six_granted)
qed


text \<open>
  Claim C2: a cycle emits \<open>max nSamples lSamples\<close> frames, the shorter source counting
  as silence beyond its own samples; 10 network samples and 6 local samples give 10
  frames. The code allocates and writes \<open>2 * (networkRead + playerRead)\<close> bytes, the sum
  of both counts instead of the larger, and its loops assign only the first
  \<open>2 * max networkRead playerRead\<close> of them. With ten samples from the network and six
  from the file the cycle writes 64 bytes, not the 40 of ten frames, and the last 24 are
  what the fresh memory of the mixing buffer held.
\<close>

theorem play_writes_unassigned_bytes:
  "fst (play_cycle (opened ten_samples six_samples)) div 2 = 10
   \<and> fst (snd (play_cycle (opened ten_samples six_samples))) div 2 = 6
   \<and> sink (opened ten_samples six_samples) = []
   \<and> length (sink (cycle_state (opened ten_samples six_samples))) = 64
   \<and> length (sink (cycle_state (opened ten_samples six_samples)))
       \<noteq> 4 * max (fst (play_cycle (opened ten_samples six_samples)) div 2)
                 (fst (snd (play_cycle (opened ten_samples six_samples))) div 2)
   \<and> drop 40 (sink (cycle_state (opened ten_samples six_samples)))
       = map (heap (opened ten_samples six_samples) (allocs (opened ten_samples six_samples)))
           [40..<64]"
proof -
  let ?P = "opened ten_samples six_samples"
  have h: "play_cycle ?P = (20, 12, cycle_state ?P)"
    by (simp add: play_cycle_cycle_state opened_ten_six_net_read opened_ten_six_file_read)
  have e: "sink ?P = []"
    by (simp add: opened_eq blank_def)
  have l: "length (mixed ?P) = 64"
    by (simp add: length_mixed opened_ten_six_net_read opened_ten_six_file_read)
  have s: "sink (cycle_state ?P) = mixed ?P"
    by (simp add: cycle_state_eq opened_accepts e)
  have "drop 40 (mixed ?P) = map (heap ?P (allocs ?P)) [40..<64]"
  proof (rule nth_equalityI)
    show "length (drop 40 (mixed ?P)) = length (map (heap ?P (allocs ?P)) [40..<64])"
      by (simp add: l)
    fix i
    assume "i < length (drop 40 (mixed ?P))"
    then have i: "i < 24"
      by (simp add: l)
    then have "40 + i < 2 * (fst (net_read ?P) + fst (file_read ?P))"
      by (simp add: opened_ten_six_net_read opened_ten_six_file_read)
    from nth_mixed [OF this] i have "mixed ?P ! (40 + i) = heap ?P (allocs ?P) (40 + i)"
      by (simp add: opened_ten_six_net_read opened_ten_six_file_read)
    then show "drop 40 (mixed ?P) ! i = map (heap ?P (allocs ?P)) [40..<64] ! i"
      using i by (simp add: l del: upt_rec_numeral)
  qed
  with h e l s show ?thesis by simp
qed

subsection \<open>End of stream\<close>

lemma NetworkReader_read_index_le:
  assumes "m_sawIndex r \<le> length (m_saw r)"
  shows "m_sawIndex (snd (snd (NetworkReader_read r buf maxBytes))) \<le> length (m_saw r)"
    and "m_saw (snd (snd (NetworkReader_read r buf maxBytes))) = m_saw r"
    and "m_sawIndex r \<le> m_sawIndex (snd (snd (NetworkReader_read r buf maxBytes)))"
  using assms granted_le [of r maxBytes] by (simp_all add: NetworkReader_read_eq)

lemma NetworkReader_read_at_end:
  assumes "length (m_saw r) \<le> m_sawIndex r"
  shows "NetworkReader_read r buf maxBytes = (0, buf, r)"
  using assms by (simp add: NetworkReader_read_def)

lemma Player_read_at_end:
  assumes "length (p_saw p) \<le> p_sawIndex p"
  shows "Player_read p buf maxBytes = (0, buf, p)"
  using assms by (simp add: Player_read_def)

lemma fst_Player_read:
  "fst (Player_read p buf maxBytes) = 2 * granted (file_stream p) maxBytes"
  by (simp add: Player_read_as_NetworkReader_read NetworkReader_read_eq file_stream_def)

text \<open>
  Claim C9, as amended. A read with room for at least one sample (\<open>maxBytes\<close> at least 2)
  returns 0 only when the index has reached the size of the vector; and at that point
  every read, whatever its buffer and \<open>maxBytes\<close>, returns 0 and leaves the source as it
  is, so that all later reads return 0 as well. This holds for the network reader and for
  the player's own read.
\<close>

theorem read_zero_only_at_end:
  assumes "2 \<le> maxBytes"
  shows "(m_sawIndex r \<le> length (m_saw r) \<longrightarrow>
           (fst (NetworkReader_read r buf maxBytes) = 0 \<longleftrightarrow> m_sawIndex r = length (m_saw r)))
    \<and> (m_sawIndex r = length (m_saw r) \<longrightarrow>
           (\<forall>buf' maxBytes'. NetworkReader_read r buf' maxBytes' = (0, buf', r)))
    \<and> (p_sawIndex p \<le> length (p_saw p) \<longrightarrow>
           (fst (Player_read p buf maxBytes) = 0 \<longleftrightarrow> p_sawIndex p = length (p_saw p)))
    \<and> (p_sawIndex p = length (p_saw p) \<longrightarrow>
           (\<forall>buf' maxBytes'. Player_read p buf' maxBytes' = (0, buf', p)))"
proof -
  have "fst (NetworkReader_read r buf maxBytes) = 0 \<longleftrightarrow> m_sawIndex r = length (m_saw r)"
    if "m_sawIndex r \<le> length (m_saw r)"
    using that assms granted_zero_iff [of r maxBytes] by (auto simp: NetworkReader_read_eq)
  moreover have "fst (Player_read p buf maxBytes) = 0 \<longleftrightarrow> p_sawIndex p = length (p_saw p)"
    if "p_sawIndex p \<le> length (p_saw p)"
    using that assms granted_zero_iff [of "file_stream p" maxBytes]
    by (auto simp: fst_Player_read file_stream_def)
  ultimately show ?thesis
    by (simp add: NetworkReader_read_at_end Player_read_at_end)
qed

theorem read_zero_only_at_end_witness:
  "(2::nat) \<le> 144
   \<and> m_sawIndex \<lparr>m_saw = [1, 2, 3], m_sawIndex = 3\<rparr> = length (m_saw \<lparr>m_saw = [1, 2, 3], m_sawIndex = 3\<rparr>)
   \<and> fst (NetworkReader_read \<lparr>m_saw = [1, 2, 3], m_sawIndex = 3\<rparr> [7, 7] 144) = 0
   \<and> NetworkReader_read \<lparr>m_saw = [1, 2, 3], m_sawIndex = 3\<rparr> [] 8 = (0, [], \<lparr>m_saw = [1, 2, 3], m_sawIndex = 3\<rparr>)
   \<and> p_sawIndex (blank\<lparr>p_saw := [1, 2, 3], p_sawIndex := 3\<rparr>)
       = length (p_saw (blank\<lparr>p_saw := [1, 2, 3], p_sawIndex := 3\<rparr>))
   \<and> fst (Player_read (blank\<lparr>p_saw := [1, 2, 3], p_sawIndex := 3\<rparr>) [7, 7] 144) = 0
   \<and> Player_read (blank\<lparr>p_saw := [1, 2, 3], p_sawIndex := 3\<rparr>) [] 8
       = (0, [], blank\<lparr>p_saw := [1, 2, 3], p_sawIndex := 3\<rparr>)"
proof -
  have h: "(2::nat) \<le> 144" by simp
  from read_zero_only_at_end [OF h, where r = "\<lparr>m_saw = [1, 2, 3], m_sawIndex = 3\<rparr>"
      and buf = "[7, 7]" and p = "blank\<lparr>p_saw := [1, 2, 3], p_sawIndex := 3\<rparr>"]
  show ?thesis by simp
qed

text \<open>
  The claim as stated fails for a read without room for a sample: with three samples left
  and \<open>maxBytes = 1\<close> the read returns 0 although the index is not at the end.
\<close>

theorem read_zero_counterexample:
  "fst (NetworkReader_read \<lparr>m_saw = [1, 2, 3], m_sawIndex = 0\<rparr> [0, 0] 1) = 0
   \<and> m_sawIndex \<lparr>m_saw = [1, 2, 3], m_sawIndex = 0\<rparr>
       \<noteq> length (m_saw \<lparr>m_saw = [1, 2, 3], m_sawIndex = 0\<rparr>)"
  by (simp add: NetworkReader_read_def)

subsection \<open>Opening the files\<close>

text \<open>
  Claim C10. \<^verbatim>\<open>open\<close> does not use its two arguments: any two calls on the same player
  and file system give the same result and do the same to the files, in the same order.
  The local input is read from \<^verbatim>\<open>audio1_s16le_mono_48k.raw\<close>: the samples of the local
  source are those of that file, their bytes the bytes of the file (up to an odd last
  byte). A sink that is opened is opened on \<^verbatim>\<open>audio_output.raw\<close>, or
  \<^verbatim>\<open>realtime_stats.txt\<close> for the statistics, and starts empty; on a player that is open
  already the stream refuses, so that no other file is opened and the stream takes no
  further write. The samples of the network reader, loaded when the player is
  constructed, are those of \<^verbatim>\<open>audio2_s16le_mono_48k.raw\<close>.
\<close>

theorem Player_open_ignores_arguments:
  "Player_open networkUrl filename fs p = Player_open networkUrl' filename' fs p
   \<and> fst (Player_open networkUrl filename fs p) =
       [open_op (\<not> is_open (sink_stream p)) ''audio_output.raw'',
        open_op (\<not> is_open (stats_stream p)) ''realtime_stats.txt'',
        Open_read ''audio1_s16le_mono_48k.raw'']
   \<and> (\<forall>bytes. fs ''audio1_s16le_mono_48k.raw'' = Some bytes \<longrightarrow>
         (\<exists>p'. snd (Player_open networkUrl filename fs p) = Running p'
               \<and> p_saw p' = int16s_of_bytes bytes
               \<and> sample_bytes (p_saw p') = take (2 * (length bytes div 2)) bytes
               \<and> (\<not> is_open (sink_stream p) \<longrightarrow>
                    sink_file p' = ''audio_output.raw'' \<and> sink p' = []
                    \<and> accepts (sink_stream p'))
               \<and> (\<not> is_open (stats_stream p) \<longrightarrow>
                    stats_file p' = ''realtime_stats.txt'' \<and> stats p' = []
                    \<and> accepts (stats_stream p'))
               \<and> (is_open (sink_stream p) \<longrightarrow>
                    sink_file p' = sink_file p \<and> sink p' = sink p
                    \<and> \<not> accepts (sink_stream p'))
               \<and> (is_open (stats_stream p) \<longrightarrow>
                    stats_file p' = stats_file p \<and> stats p' = stats p
                    \<and> \<not> accepts (stats_stream p'))))
   \<and> (\<forall>bytes. fs ''audio2_s16le_mono_48k.raw'' = Some bytes \<longrightarrow>
         (\<exists>r. NetworkReader_new fs = Running r \<and> m_saw r = int16s_of_bytes bytes
              \<and> sample_bytes (m_saw r) = take (2 * (length bytes div 2)) bytes
              \<and> m_sawIndex r = 0)
         \<and> (\<exists>p'. Player_new fs p = Running p' \<and> m_saw (nr p') = int16s_of_bytes bytes
                \<and> \<not> is_open (sink_stream p') \<and> \<not> is_open (stats_stream p')))"
proof -
  have "Player_open networkUrl filename fs p = Player_open networkUrl' filename' fs p"
    by (simp only: Player_open_eq)
  moreover have "fst (Player_open networkUrl filename fs p) =
       [open_op (\<not> is_open (sink_stream p)) ''audio_output.raw'',
        open_op (\<not> is_open (stats_stream p)) ''realtime_stats.txt'',
        Open_read ''audio1_s16le_mono_48k.raw'']"
    by (simp only: Player_open_eq fst_conv)
  moreover have "\<exists>p'. snd (Player_open networkUrl filename fs p) = Running p'
               \<and> p_saw p' = int16s_of_bytes bytes
               \<and> sample_bytes (p_saw p') = take (2 * (length bytes div 2)) bytes
               \<and> (\<not> is_open (sink_stream p) \<longrightarrow>
                    sink_file p' = ''audio_output.raw'' \<and> sink p' = []
                    \<and> accepts (sink_stream p'))
               \<and> (\<not> is_open (stats_stream p) \<longrightarrow>
                    stats_file p' = ''realtime_stats.txt'' \<and> stats p' = []
                    \<and> accepts (stats_stream p'))
               \<and> (is_open (sink_stream p) \<longrightarrow>
                    sink_file p' = sink_file p \<and> sink p' = sink p
                    \<and> \<not> accepts (sink_stream p'))
               \<and> (is_open (stats_stream p) \<longrightarrow>
                    stats_file p' = stats_file p \<and> stats p' = stats p
                    \<and> \<not> accepts (stats_stream p'))"
    if "fs ''audio1_s16le_mono_48k.raw'' = Some bytes" for bytes
    using that
    by (simp add: Player_open_eq ofstream_open_eq sample_bytes_int16s_of_bytes
        del: upt_rec_numeral)
  moreover have "(\<exists>r. NetworkReader_new fs = Running r \<and> m_saw r = int16s_of_bytes bytes
              \<and> sample_bytes (m_saw r) = take (2 * (length bytes div 2)) bytes
              \<and> m_sawIndex r = 0)
         \<and> (\<exists>p'. Player_new fs p = Running p' \<and> m_saw (nr p') = int16s_of_bytes bytes
                \<and> \<not> is_open (sink_stream p') \<and> \<not> is_open (stats_stream p'))"
    if "fs ''audio2_s16le_mono_48k.raw'' = Some bytes" for bytes
    using that
    by (simp add: Player_new_def NetworkReader_new_def initWaveform_def
        sample_bytes_int16s_of_bytes)
  ultimately show ?thesis by blast
qed

lemma opened_simple_reopened:
  "Player_open ''rtp://host'' ''a.raw'' (input_files [2, 1] [52, 18]) (opened [2, 1] [0, 0])
     = ([Open_refused ''audio_output.raw'', Open_refused ''realtime_stats.txt'',
         Open_read ''audio1_s16le_mono_48k.raw''],
        Running ((opened [2, 1] [0, 0])
                   \<lparr>sink_stream := \<lparr>is_open = True, failed = True\<rparr>,
                    stats_stream := \<lparr>is_open = True, failed = True\<rparr>,
                    p_saw := [4660],
                    allocs := 4\<rparr>))"
  by (simp add: Player_open_eq input_files_def open_op_def int16_of_bytes_def)
     (simp add: opened_eq blank_def ofstream_open_def map_replicate_const del: upt_rec_numeral)

theorem Player_open_ignores_arguments_witness:
  "input_files [2, 1] [52, 18] ''audio1_s16le_mono_48k.raw'' = Some [52, 18]
   \<and> input_files [2, 1] [52, 18] ''audio2_s16le_mono_48k.raw'' = Some [2, 1]
   \<and> \<not> is_open (sink_stream blank) \<and> \<not> is_open (stats_stream blank)
   \<and> Player_open ''rtp://host'' ''a.raw'' (input_files [2, 1] [52, 18]) blank
       = Player_open [] ''b.raw'' (input_files [2, 1] [52, 18]) blank
   \<and> fst (Player_open ''rtp://host'' ''a.raw'' (input_files [2, 1] [52, 18]) blank)
       = [Open_trunc ''audio_output.raw'', Open_trunc ''realtime_stats.txt'',
          Open_read ''audio1_s16le_mono_48k.raw'']
   \<and> (\<exists>p'. snd (Player_open ''rtp://host'' ''a.raw'' (input_files [2, 1] [52, 18]) blank)
             = Running p'
         \<and> p_saw p' = [4660] \<and> sample_bytes (p_saw p') = [52, 18]
         \<and> sink_file p' = ''audio_output.raw'' \<and> sink p' = [] \<and> accepts (sink_stream p')
         \<and> stats_file p' = ''realtime_stats.txt'' \<and> stats p' = []
         \<and> accepts (stats_stream p'))
   \<and> (\<exists>r. NetworkReader_new (input_files [2, 1] [52, 18]) = Running r
         \<and> m_saw r = [258] \<and> sample_bytes (m_saw r) = [2, 1])
   \<and> is_open (sink_stream (opened [2, 1] [0, 0]))
   \<and> is_open (stats_stream (opened [2, 1] [0, 0]))
   \<and> fst (Player_open ''rtp://host'' ''a.raw'' (input_files [2, 1] [52, 18])
            (opened [2, 1] [0, 0]))
       = [Open_refused ''audio_output.raw'', Open_refused ''realtime_stats.txt'',
          Open_read ''audio1_s16le_mono_48k.raw'']
   \<and> (\<exists>p'. snd (Player_open ''rtp://host'' ''a.raw'' (input_files [2, 1] [52, 18])
                  (opened [2, 1] [0, 0])) = Running p'
         \<and> p_saw p' = [4660]
         \<and> sink p' = sink (opened [2, 1] [0, 0]) \<and> \<not> accepts (sink_stream p')
         \<and> stats p' = stats (opened [2, 1] [0, 0]) \<and> \<not> accepts (stats_stream p'))"
proof -
  let ?fs = "input_files [2, 1] [52, 18]"
  have a: "?fs ''audio1_s16le_mono_48k.raw'' = Some [52, 18]"
    and b: "?fs ''audio2_s16le_mono_48k.raw'' = Some [2, 1]"
    by (simp_all add: input_files_def)
  have c: "\<not> is_open (sink_stream blank)" "\<not> is_open (stats_stream blank)"
    by (simp_all add: blank_def)
  have d: "is_open (sink_stream (opened [2, 1] [0, 0]))"
    "is_open (stats_stream (opened [2, 1] [0, 0]))"
    by (simp_all add: opened_eq)
  have v: "int16s_of_bytes [52, 18] = [4660]" "int16s_of_bytes [2, 1] = [258]"
    by (simp_all add: int16_of_bytes_def)
  note t = Player_open_ignores_arguments [where networkUrl = "''rtp://host''"
      and filename = "''a.raw''" and networkUrl' = "[]" and filename' = "''b.raw''"
      and fs = ?fs and p = blank]
  note u = Player_open_ignores_arguments [where networkUrl = "''rtp://host''"
      and filename = "''a.raw''" and networkUrl' = "[]" and filename' = "''b.raw''"
      and fs = ?fs and p = "opened [2, 1] [0, 0]"]
  have t1: "Player_open ''rtp://host'' ''a.raw'' ?fs blank = Player_open [] ''b.raw'' ?fs blank"
    using t by (rule conjunct1)
  have t2: "fst (Player_open ''rtp://host'' ''a.raw'' ?fs blank)
       = [Open_trunc ''audio_output.raw'', Open_trunc ''realtime_stats.txt'',
          Open_read ''audio1_s16le_mono_48k.raw'']"
    using t [THEN conjunct2, THEN conjunct1] c by (simp add: open_op_def)
  have t3: "\<exists>p'. snd (Player_open ''rtp://host'' ''a.raw'' ?fs blank) = Running p'
         \<and> p_saw p' = [4660] \<and> sample_bytes (p_saw p') = [52, 18]
         \<and> sink_file p' = ''audio_output.raw'' \<and> sink p' = [] \<and> accepts (sink_stream p')
         \<and> stats_file p' = ''realtime_stats.txt'' \<and> stats p' = []
         \<and> accepts (stats_stream p')"
    using t [THEN conjunct2, THEN conjunct2, THEN conjunct1] a c v by auto
  have t4: "\<exists>r. NetworkReader_new ?fs = Running r
         \<and> m_saw r = [258] \<and> sample_bytes (m_saw r) = [2, 1]"
    using t [THEN conjunct2, THEN conjunct2, THEN conjunct2] b v by auto
  have u2: "fst (Player_open ''rtp://host'' ''a.raw'' ?fs (opened [2, 1] [0, 0]))
       = [Open_refused ''audio_output.raw'', Open_refused ''realtime_stats.txt'',
          Open_read ''audio1_s16le_mono_48k.raw'']"
    using u [THEN conjunct2, THEN conjunct1] d by (simp add: open_op_def)
  have u3: "\<exists>p'. snd (Player_open ''rtp://host'' ''a.raw'' ?fs (opened [2, 1] [0, 0]))
             = Running p'
         \<and> p_saw p' = [4660]
         \<and> sink p' = sink (opened [2, 1] [0, 0]) \<and> \<not> accepts (sink_stream p')
         \<and> stats p' = stats (opened [2, 1] [0, 0]) \<and> \<not> accepts (stats_stream p')"
    using u [THEN conjunct2, THEN conjunct2, THEN conjunct1] a d v by auto
  from a b c d t1 t2 t3 t4 u2 u3 show ?thesis
    by simp
qed

text \<open>
  Claim C8, as amended. When the local input file cannot be opened, \<^verbatim>\<open>open\<close>, having
  gone through the opening of both sinks (each opened and emptied unless the player was
  open already), terminates the process with exit status 1; when the network input file
  cannot be opened, the construction of the player does. No error value is returned and
  the process does not go on.
\<close>

theorem missing_input_exits:
  "(fs ''audio1_s16le_mono_48k.raw'' = None \<longrightarrow>
      Player_open networkUrl filename fs p =
        ([open_op (\<not> is_open (sink_stream p)) ''audio_output.raw'',
          open_op (\<not> is_open (stats_stream p)) ''realtime_stats.txt'',
          Open_read ''audio1_s16le_mono_48k.raw''], Exit 1)
      \<and> main_open fs p = Exit 1)
   \<and> (fs ''audio2_s16le_mono_48k.raw'' = None \<longrightarrow>
      NetworkReader_new fs = Exit 1 \<and> Player_new fs p = Exit 1 \<and> main_open fs p = Exit 1)"
  by (simp add: Player_open_eq main_open_def Player_new_def NetworkReader_new_def
      initWaveform_def split: option.split proc.split)

theorem missing_input_exits_witness:
  "network_file_only [2, 1] ''audio1_s16le_mono_48k.raw'' = None
   \<and> no_files ''audio2_s16le_mono_48k.raw'' = None
   \<and> Player_open ''audio2_s16le_mono_48k.raw'' ''audio1_s16le_mono_48k.raw''
         (network_file_only [2, 1]) blank
       = ([Open_trunc ''audio_output.raw'', Open_trunc ''realtime_stats.txt'',
           Open_read ''audio1_s16le_mono_48k.raw''], Exit 1)
   \<and> Player_new no_files blank = Exit 1"
proof -
  have a: "network_file_only [2, 1] ''audio1_s16le_mono_48k.raw'' = None"
    by (simp add: network_file_only_def)
  have b: "no_files ''audio2_s16le_mono_48k.raw'' = None"
    by (simp add: no_files_def)
  have c: "\<not> is_open (sink_stream blank)" "\<not> is_open (stats_stream blank)"
    by (simp_all add: blank_def)
  from missing_input_exits [where fs = "network_file_only [2, 1]" and p = blank
      and networkUrl = "''audio2_s16le_mono_48k.raw''"
      and filename = "''audio1_s16le_mono_48k.raw''"]
    missing_input_exits [where fs = no_files and p = blank] a b c
  show ?thesis by (simp add: open_op_def)
qed

text \<open>
  The claim as stated fails: with the network file present and the local file missing,
  the program of \<^verbatim>\<open>main\<close> ends in \<^verbatim>\<open>exit(1)\<close> inside \<^verbatim>\<open>open\<close>.
\<close>

theorem open_error_counterexample:
  "main_open (network_file_only [2, 1]) blank = Exit 1"
  by (simp add: main_open_def Player_new_def NetworkReader_new_def initWaveform_def
      Player_open_eq network_file_only_def)

subsection \<open>Sessions\<close>

lemma cycle_state_fields:
  "nr (cycle_state p) = (nr p)\<lparr>m_sawIndex := m_sawIndex (nr p) + granted (nr p) (networkBytes p)\<rparr>"
  "p_saw (cycle_state p) = p_saw p"
  "p_sawIndex (cycle_state p) = p_sawIndex p + granted (file_stream p) (playerBytes p)"
  "networkBuffer (cycle_state p) = fst (snd (net_read p))"
  "playerBuffer (cycle_state p) = fst (snd (file_read p))"
  "networkBytes (cycle_state p) = networkBytes p"
  "playerBytes (cycle_state p) = playerBytes p"
  "networkLevel (cycle_state p) = networkLevel p"
  "playerLevel (cycle_state p) = playerLevel p"
  "stopWatch (cycle_state p) = stopWatch p"
  "stopWatch_reads (cycle_state p) = Suc (stopWatch_reads p)"
  "writtenSamples (cycle_state p) = counted p"
  "stats (cycle_state p) =
     stats p @ (if accepts (stats_stream p)
                then [(stopWatch p (stopWatch_reads p), counted p)] else [])"
  "sink (cycle_state p) = sink p @ (if accepts (sink_stream p) then mixed p else [])"
  "mix (cycle_state p) = mixed p"
  "paused (cycle_state p) = False"
  "accepts (stats_stream (cycle_state p)) = accepts (stats_stream p)"
  "accepts (sink_stream (cycle_state p)) = accepts (sink_stream p)"
  by (simp_all add: cycle_state_eq net_read_eq file_read_eq ofstream_write_eq)

lemma pause_fields:
  "nr (pause p) = nr p"
  "p_saw (pause p) = p_saw p"
  "p_sawIndex (pause p) = p_sawIndex p"
  "networkBytes (pause p) = networkBytes p"
  "playerBytes (pause p) = playerBytes p"
  "stopWatch (pause p) = stopWatch p"
  "stopWatch_reads (pause p) = Suc (stopWatch_reads p)"
  "writtenSamples (pause p) = writtenSamples p"
  "stats (pause p) = stats p"
  "sink (pause p) = sink p"
  "paused (pause p) = True"
  "stats_stream (pause p) = stats_stream p"
  "sink_stream (pause p) = sink_stream p"
  by (simp_all add: pause_def elapsed_def Let_def)

lemma setMixingLevel_fields:
  "nr (setMixingLevel level p) = nr p"
  "p_saw (setMixingLevel level p) = p_saw p"
  "p_sawIndex (setMixingLevel level p) = p_sawIndex p"
  "networkBytes (setMixingLevel level p) = networkBytes p"
  "playerBytes (setMixingLevel level p) = playerBytes p"
  "stopWatch (setMixingLevel level p) = stopWatch p"
  "stopWatch_reads (setMixingLevel level p) = stopWatch_reads p"
  "writtenSamples (setMixingLevel level p) = writtenSamples p"
  "stats (setMixingLevel level p) = stats p"
  "sink (setMixingLevel level p) = sink p"
  "stats_stream (setMixingLevel level p) = stats_stream p"
  "sink_stream (setMixingLevel level p) = sink_stream p"
  by (simp_all add: setMixingLevel_def Let_def)

lemma session_Cycle:
  "session (Cycle # cs) p =
     (take (fst (net_read p)) (fst (snd (net_read p))) @ fst (session cs (cycle_state p)),
      take (fst (file_read p)) (fst (snd (file_read p))) @ fst (snd (session cs (cycle_state p))),
      snd (snd (session cs (cycle_state p))))"
  by (simp add: play_cycle_cycle_state cycle_state_fields split_beta)

lemma fst_net_read: "fst (net_read p) = 2 * granted (nr p) (networkBytes p)"
  by (simp add: net_read_eq)

lemma fst_file_read: "fst (file_read p) = 2 * granted (file_stream p) (playerBytes p)"
  by (simp add: file_read_eq)

lemma in_bounds_cycle_state: "in_bounds p \<Longrightarrow> in_bounds (cycle_state p)"
  using granted_le [of "nr p" "networkBytes p"] granted_le [of "file_stream p" "playerBytes p"]
  by (auto simp: in_bounds_def cycle_state_fields file_stream_def)

lemma take_run_append:
  "sample_bytes (take a (drop i xs)) @ sample_bytes (take b (drop (i + a) xs))
     = sample_bytes (take (a + b) (drop i xs))"
  by (simp add: sample_bytes_append [symmetric] take_add add.commute)

lemma session_slices:
  "in_bounds p \<Longrightarrow> session cs p = (ns, fs, p') \<Longrightarrow>
     in_bounds p' \<and> m_saw (nr p') = m_saw (nr p) \<and> p_saw p' = p_saw p
     \<and> (\<exists>a b. m_sawIndex (nr p') = m_sawIndex (nr p) + a
             \<and> ns = sample_bytes (take a (drop (m_sawIndex (nr p)) (m_saw (nr p))))
             \<and> p_sawIndex p' = p_sawIndex p + b
             \<and> fs = sample_bytes (take b (drop (p_sawIndex p) (p_saw p))))"
proof (induction cs arbitrary: p ns fs)
  case Nil
  then show ?case by (simp add: sample_bytes_def)
next
  case (Cons c cs)
  show ?case
  proof (cases c)
    case Cycle
    let ?q = "cycle_state p"
    let ?gn = "granted (nr p) (networkBytes p)"
    let ?gf = "granted (file_stream p) (playerBytes p)"
    obtain ns' fs' where s: "session cs ?q = (ns', fs', p')"
      and ns: "ns = take (fst (net_read p)) (fst (snd (net_read p))) @ ns'"
      and fs: "fs = take (fst (file_read p)) (fst (snd (file_read p))) @ fs'"
      using Cons.prems(2) Cycle
      by (cases "session cs ?q") (simp add: session_Cycle del: session.simps)
    from Cons.IH [OF in_bounds_cycle_state [OF Cons.prems(1)] s]
    obtain a b where ih: "in_bounds p'" "m_saw (nr p') = m_saw (nr p)" "p_saw p' = p_saw p"
      "m_sawIndex (nr p') = m_sawIndex (nr p) + ?gn + a"
      "ns' = sample_bytes (take a (drop (m_sawIndex (nr p) + ?gn) (m_saw (nr p))))"
      "p_sawIndex p' = p_sawIndex p + ?gf + b"
      "fs' = sample_bytes (take b (drop (p_sawIndex p + ?gf) (p_saw p)))"
      by (auto simp: cycle_state_fields)
    have tn: "take (fst (net_read p)) (fst (snd (net_read p)))
        = sample_bytes (take ?gn (drop (m_sawIndex (nr p)) (m_saw (nr p))))"
      using take_net_read_buffer [of p] by (simp add: fst_net_read)
    have tf: "take (fst (file_read p)) (fst (snd (file_read p)))
        = sample_bytes (take ?gf (drop (p_sawIndex p) (p_saw p)))"
      using take_file_read_buffer [of p] by (simp add: fst_file_read)
    have "ns = sample_bytes (take (?gn + a) (drop (m_sawIndex (nr p)) (m_saw (nr p))))"
      unfolding ns ih(5) tn by (rule take_run_append)
    moreover have "fs = sample_bytes (take (?gf + b) (drop (p_sawIndex p) (p_saw p)))"
      unfolding fs ih(7) tf by (rule take_run_append)
    ultimately show ?thesis
      using ih(1-4,6) by (metis add.assoc)
  next
    case Pause
    have "in_bounds (pause p)"
      using Cons.prems(1) by (simp add: in_bounds_def pause_fields)
    from Cons.IH [OF this] Cons.prems(2) Pause show ?thesis
      by (simp add: pause_fields)
  next
    case (SetMixingLevel level)
    have "in_bounds (setMixingLevel level p)"
      using Cons.prems(1) by (simp add: in_bounds_def setMixingLevel_fields)
    from Cons.IH [OF this] Cons.prems(2) SetMixingLevel show ?thesis
      by (simp add: setMixingLevel_fields)
  qed
qed


text \<open>
  Claim C5. In every session, whatever cycles, pauses and level changes it is made of, the
  index of each source only moves forward, by exactly the number of samples the source
  delivered, and the bytes delivered are those of the samples from the index at the start
  to the index at the end, in order, none twice and none left out. A pause leaves both
  sources as they are, so the cycle after it reads on from the sample the cycle before
  stopped at. A source read from its first sample to the end of its vector has delivered
  each of its samples exactly once.
\<close>

theorem source_cursors_monotonic:
  assumes "in_bounds p" and "session cs p = (ns, fs, p')"
  shows "in_bounds p' \<and> m_saw (nr p') = m_saw (nr p) \<and> p_saw p' = p_saw p
    \<and> m_sawIndex (nr p) \<le> m_sawIndex (nr p') \<and> p_sawIndex p \<le> p_sawIndex p'
    \<and> m_sawIndex (nr p') = m_sawIndex (nr p) + length ns div 2
    \<and> p_sawIndex p' = p_sawIndex p + length fs div 2
    \<and> ns = sample_bytes (take (length ns div 2) (drop (m_sawIndex (nr p)) (m_saw (nr p))))
    \<and> fs = sample_bytes (take (length fs div 2) (drop (p_sawIndex p) (p_saw p)))
    \<and> (m_sawIndex (nr p) = 0 \<and> m_sawIndex (nr p') = length (m_saw (nr p)) \<longrightarrow>
          ns = sample_bytes (m_saw (nr p)))
    \<and> (p_sawIndex p = 0 \<and> p_sawIndex p' = length (p_saw p) \<longrightarrow>
          fs = sample_bytes (p_saw p))
    \<and> nr (pause p) = nr p \<and> p_saw (pause p) = p_saw p \<and> p_sawIndex (pause p) = p_sawIndex p"
proof -
  from session_slices [OF assms]
  obtain a b where s: "in_bounds p'" "m_saw (nr p') = m_saw (nr p)" "p_saw p' = p_saw p"
    "m_sawIndex (nr p') = m_sawIndex (nr p) + a"
    "ns = sample_bytes (take a (drop (m_sawIndex (nr p)) (m_saw (nr p))))"
    "p_sawIndex p' = p_sawIndex p + b"
    "fs = sample_bytes (take b (drop (p_sawIndex p) (p_saw p)))"
    by blast
  have a: "a \<le> length (m_saw (nr p)) - m_sawIndex (nr p)"
    and b: "b \<le> length (p_saw p) - p_sawIndex p"
    using s(1-4,6) by (auto simp: in_bounds_def)
  have la: "length ns div 2 = a" and lb: "length fs div 2 = b"
    using a b by (simp_all add: s(5,7) length_sample_bytes)
  have "ns = sample_bytes (m_saw (nr p))"
    if "m_sawIndex (nr p) = 0" "m_sawIndex (nr p') = length (m_saw (nr p))"
    using that s(2,4,5) by simp
  moreover have "fs = sample_bytes (p_saw p)"
    if "p_sawIndex p = 0" "p_sawIndex p' = length (p_saw p)"
    using that s(3,6,7) by simp
  ultimately show ?thesis
    unfolding la lb using s by (simp add: pause_fields)
qed

lemma opened_simple_second_cycle:
  "granted (nr (pause (cycle_state (opened [2, 1] [0, 0])))) 144 = 0"
  "granted (file_stream (pause (cycle_state (opened [2, 1] [0, 0])))) 144 = 0"
  "networkBytes (pause (cycle_state (opened [2, 1] [0, 0]))) = 144"
  "playerBytes (pause (cycle_state (opened [2, 1] [0, 0]))) = 144"
  by (simp_all add: pause_fields cycle_state_fields file_stream_def granted_def)
     (simp_all add: opened_eq blank_def int16_of_bytes_def)

theorem source_cursors_monotonic_witness:
  "in_bounds (opened [2, 1] [0, 0])
   \<and> session [Cycle, Pause, Cycle] (opened [2, 1] [0, 0])
       = ([2, 1], [0, 0], cycle_state (pause (cycle_state (opened [2, 1] [0, 0]))))
   \<and> m_sawIndex (nr (opened [2, 1] [0, 0])) = 0
   \<and> m_sawIndex (nr (cycle_state (pause (cycle_state (opened [2, 1] [0, 0])))))
       = length (m_saw (nr (opened [2, 1] [0, 0])))
   \<and> p_sawIndex (opened [2, 1] [0, 0]) = 0
   \<and> p_sawIndex (cycle_state (pause (cycle_state (opened [2, 1] [0, 0]))))
       = length (p_saw (opened [2, 1] [0, 0]))
   \<and> [2, 1] = sample_bytes (m_saw (nr (opened [2, 1] [0, 0])))
   \<and> [0, 0] = sample_bytes (p_saw (opened [2, 1] [0, 0]))"
proof -
  let ?P = "opened [2, 1] [0, 0]"
  let ?Q = "pause (cycle_state ?P)"
  have b: "in_bounds ?P"
    by (simp add: in_bounds_def opened_eq blank_def)
  have q: "fst (net_read ?Q) = 0" "fst (file_read ?Q) = 0"
    by (simp_all add: fst_net_read fst_file_read opened_simple_second_cycle)
  have s: "session [Cycle, Pause, Cycle] ?P = ([2, 1], [0, 0], cycle_state ?Q)"
    by (simp add: session_Cycle q opened_simple_net_read opened_simple_file_read
        del: session.simps(2))
  have z: "m_sawIndex (nr ?P) = 0" "p_sawIndex ?P = 0"
    by (simp_all add: opened_eq blank_def)
  have e: "m_sawIndex (nr (cycle_state ?Q)) = length (m_saw (nr ?P))"
    "p_sawIndex (cycle_state ?Q) = length (p_saw ?P)"
    by (simp_all add: cycle_state_fields opened_simple_second_cycle)
       (simp_all add: pause_fields cycle_state_fields file_stream_def granted_def opened_eq
          blank_def int16_of_bytes_def)
  from source_cursors_monotonic [OF b s] z e
  have "[2, 1] = sample_bytes (m_saw (nr ?P))" "[0, 0] = sample_bytes (p_saw ?P)"
    by blast+
  with b s z e show ?thesis by simp
qed

subsection \<open>Statistics\<close>

lemma to_int16_id: "0 \<le> x \<Longrightarrow> x < 32768 \<Longrightarrow> to_int16 x = x"
  by (simp add: to_int16_def)

lemma to_int32_id: "- 2147483648 \<le> x \<Longrightarrow> x < 2147483648 \<Longrightarrow> to_int32 x = x"
  by (simp add: to_int32_def)

lemma granted_le_budget: "granted r maxBytes \<le> maxBytes div 2"
  unfolding granted_def by arith

lemma remaining_cycle_state:
  "remaining (cycle_state p) + granted (nr p) (networkBytes p)
     + granted (file_stream p) (playerBytes p) = remaining p"
  using granted_le [of "nr p" "networkBytes p"] granted_le [of "file_stream p" "playerBytes p"]
  by (simp add: remaining_def cycle_state_fields file_stream_def)

lemma counted_eq:
  assumes "counter_fits p"
  shows "counted p = writtenSamples p + int (granted (nr p) (networkBytes p))
           + int (granted (file_stream p) (playerBytes p))"
proof -
  let ?gn = "granted (nr p) (networkBytes p)"
  let ?gf = "granted (file_stream p) (playerBytes p)"
  have "?gn + ?gf \<le> networkBytes p div 2 + playerBytes p div 2"
    using granted_le_budget [of "nr p" "networkBytes p"]
      granted_le_budget [of "file_stream p" "playerBytes p"] by simp
  also have "\<dots> < 32768"
    using assms unfolding counter_fits_def by arith
  finally have small: "int (?gf + ?gn) < 32768" by simp
  have "?gn + ?gf \<le> remaining p"
    using remaining_cycle_state [of p] by simp
  then have "writtenSamples p + int (?gf + ?gn) < 2147483648"
    and "- 2147483648 \<le> writtenSamples p + int (?gf + ?gn)"
    using assms by (simp_all add: counter_fits_def)
  then show ?thesis
    using small by (simp add: counted_def fst_net_read fst_file_read to_int16_id to_int32_id)
qed

lemma counter_fits_cycle_state:
  assumes "counter_fits p"
  shows "counter_fits (cycle_state p)"
  using assms remaining_cycle_state [of p] counted_eq [OF assms]
  by (simp add: counter_fits_def cycle_state_fields)

lemma length_take_net_read:
  "length (take (fst (net_read p)) (fst (snd (net_read p)))) = 2 * granted (nr p) (networkBytes p)"
proof -
  have "length (take (fst (net_read p)) (fst (snd (net_read p)))) =
      length (sample_bytes (take (fst (net_read p) div 2) (drop (m_sawIndex (nr p)) (m_saw (nr p)))))"
    by (simp only: take_net_read_buffer)
  then show ?thesis
    using granted_le [of "nr p" "networkBytes p"]
    by (simp add: length_sample_bytes fst_net_read)
qed

lemma length_take_file_read:
  "length (take (fst (file_read p)) (fst (snd (file_read p))))
     = 2 * granted (file_stream p) (playerBytes p)"
proof -
  have "length (take (fst (file_read p)) (fst (snd (file_read p)))) =
      length (sample_bytes (take (fst (file_read p) div 2) (drop (p_sawIndex p) (p_saw p))))"
    by (simp only: take_file_read_buffer)
  then show ?thesis
    using granted_le [of "file_stream p" "playerBytes p"]
    by (simp add: length_sample_bytes fst_file_read file_stream_def)
qed

lemma session_records:
  "counter_fits p \<Longrightarrow> mono (stopWatch p) \<Longrightarrow> session cs p = (ns, fs, p') \<Longrightarrow>
     \<exists>recs. stats p' = stats p @ (if accepts (stats_stream p) then recs else [])
       \<and> length recs = count_list cs Cycle
       \<and> sorted (map fst recs) \<and> sorted (map snd recs)
       \<and> (\<forall>r\<in>set recs. stopWatch p (stopWatch_reads p) \<le> fst r \<and> writtenSamples p \<le> snd r)
       \<and> writtenSamples p' = writtenSamples p + int (length ns div 2) + int (length fs div 2)"
proof (induction cs arbitrary: p ns fs)
  case Nil
  then show ?case by simp
next
  case (Cons c cs)
  show ?case
  proof (cases c)
    case Cycle
    let ?q = "cycle_state p"
    let ?gn = "granted (nr p) (networkBytes p)"
    let ?gf = "granted (file_stream p) (playerBytes p)"
    let ?r0 = "(stopWatch p (stopWatch_reads p), counted p)"
    obtain ns' fs' where s: "session cs ?q = (ns', fs', p')"
      and ns: "ns = take (fst (net_read p)) (fst (snd (net_read p))) @ ns'"
      and fs: "fs = take (fst (file_read p)) (fst (snd (file_read p))) @ fs'"
      using Cons.prems(3) Cycle
      by (cases "session cs ?q") (simp add: session_Cycle del: session.simps)
    have m: "mono (stopWatch ?q)"
      using Cons.prems(2) by (simp add: cycle_state_fields)
    from Cons.IH [OF counter_fits_cycle_state [OF Cons.prems(1)] m s]
    obtain recs where ih:
      "stats p' = stats ?q @ (if accepts (stats_stream ?q) then recs else [])"
      "length recs = count_list cs Cycle"
      "sorted (map fst recs)" "sorted (map snd recs)"
      "\<forall>r\<in>set recs. stopWatch ?q (stopWatch_reads ?q) \<le> fst r \<and> writtenSamples ?q \<le> snd r"
      "writtenSamples p' = writtenSamples ?q + int (length ns' div 2) + int (length fs' div 2)"
      by blast
    have c: "counted p = writtenSamples p + int ?gn + int ?gf"
      by (rule counted_eq [OF Cons.prems(1)])
    have t: "stopWatch p (stopWatch_reads p) \<le> stopWatch p (Suc (stopWatch_reads p))"
      using Cons.prems(2) by (simp add: mono_def)
    have lower: "\<forall>r\<in>set recs. stopWatch p (stopWatch_reads p) \<le> fst r \<and> counted p \<le> snd r"
      using ih(5) t by (auto simp: cycle_state_fields)
    have "stats p' = stats p @ (if accepts (stats_stream p) then ?r0 # recs else [])"
      using ih(1) by (simp add: cycle_state_fields)
    moreover have "length (?r0 # recs) = count_list (c # cs) Cycle"
      using ih(2) Cycle by simp
    moreover have "sorted (map fst (?r0 # recs))" "sorted (map snd (?r0 # recs))"
      using ih(3,4) lower by auto
    moreover have "\<forall>r\<in>set (?r0 # recs).
        stopWatch p (stopWatch_reads p) \<le> fst r \<and> writtenSamples p \<le> snd r"
      using lower c by auto
    moreover have "writtenSamples p' =
        writtenSamples p + int (length ns div 2) + int (length fs div 2)"
      using ih(6) c length_take_net_read [of p] length_take_file_read [of p]
      by (simp add: ns fs cycle_state_fields)
    ultimately show ?thesis by blast
  next
    case Pause
    have f: "counter_fits (pause p)" "mono (stopWatch (pause p))"
      using Cons.prems(1,2) by (simp_all add: counter_fits_def remaining_def pause_fields)
    have t: "stopWatch p (stopWatch_reads p) \<le> stopWatch p (Suc (stopWatch_reads p))"
      using Cons.prems(2) by (simp add: mono_def)
    from Cons.IH [OF f] Cons.prems(3) Pause
    obtain recs where ih:
      "stats p' = stats p @ (if accepts (stats_stream p) then recs else [])"
      "length recs = count_list cs Cycle"
      "sorted (map fst recs)" "sorted (map snd recs)"
      "\<forall>r\<in>set recs. stopWatch p (Suc (stopWatch_reads p)) \<le> fst r \<and> writtenSamples p \<le> snd r"
      "writtenSamples p' = writtenSamples p + int (length ns div 2) + int (length fs div 2)"
      by (auto simp: pause_fields)
    have "\<forall>r\<in>set recs. stopWatch p (stopWatch_reads p) \<le> fst r \<and> writtenSamples p \<le> snd r"
      using ih(5) t by auto
    with ih(1-4,6) Pause show ?thesis by auto
  next
    case (SetMixingLevel level)
    have f: "counter_fits (setMixingLevel level p)" "mono (stopWatch (setMixingLevel level p))"
      using Cons.prems(1,2)
      by (simp_all add: counter_fits_def remaining_def setMixingLevel_fields)
    from Cons.IH [OF f] Cons.prems(3) SetMixingLevel show ?thesis
      by (simp add: setMixingLevel_fields)
  qed
qed


text \<open>
  Claim C6, as amended. On a player whose statistics stream is open and not failed, as
  after \<^verbatim>\<open>open\<close>, every cycle appends exactly one record to the statistics: the elapsed
  milliseconds and the sample counter, which the cycle has raised by the number of
  samples read from the network plus the number read from the file (not by the larger of
  the two). Over a session the records appended are as many as the cycles, and their
  counts never decrease; their times never decrease when the clock does not. This is under
  \<open>counter_fits\<close>: the counter, which starts from whatever its memory held, has room for
  the samples still to come. A statistics stream that is closed or failed takes no
  record; the counter is raised all the same.
\<close>

theorem stats_records:
  assumes "session cs p = (ns, fs, p')" and "counter_fits p" and "mono (stopWatch p)"
  shows "(accepts (stats_stream p) \<longrightarrow>
            (\<exists>recs. stats p' = stats p @ recs \<and> length recs = count_list cs Cycle
               \<and> sorted (map fst recs) \<and> sorted (map snd recs))
            \<and> stats (cycle_state p) =
                stats p @ [(stopWatch p (stopWatch_reads p),
                            writtenSamples p + int (fst (net_read p) div 2)
                              + int (fst (file_read p) div 2))])
    \<and> (\<not> accepts (stats_stream p) \<longrightarrow>
            stats p' = stats p \<and> stats (cycle_state p) = stats p)
    \<and> writtenSamples p' = writtenSamples p + int (length ns div 2) + int (length fs div 2)
    \<and> writtenSamples (cycle_state p) =
        writtenSamples p + int (fst (net_read p) div 2) + int (fst (file_read p) div 2)
    \<and> (stats p = [] \<longrightarrow> sorted (map fst (stats p')) \<and> sorted (map snd (stats p')))"
proof -
  from session_records [OF assms(2,3,1)]
  obtain recs where r:
    "stats p' = stats p @ (if accepts (stats_stream p) then recs else [])"
    "length recs = count_list cs Cycle"
    "sorted (map fst recs)" "sorted (map snd recs)"
    "writtenSamples p' = writtenSamples p + int (length ns div 2) + int (length fs div 2)"
    by blast
  have c: "counted p =
      writtenSamples p + int (fst (net_read p) div 2) + int (fst (file_read p) div 2)"
    by (simp add: counted_eq [OF assms(2)] fst_net_read fst_file_read)
  have open_case: "(\<exists>recs. stats p' = stats p @ recs \<and> length recs = count_list cs Cycle
               \<and> sorted (map fst recs) \<and> sorted (map snd recs))
            \<and> stats (cycle_state p) =
                stats p @ [(stopWatch p (stopWatch_reads p),
                            writtenSamples p + int (fst (net_read p) div 2)
                              + int (fst (file_read p) div 2))]"
    if "accepts (stats_stream p)"
    using that r(1-4) c by (auto simp: cycle_state_fields)
  have closed_case: "stats p' = stats p \<and> stats (cycle_state p) = stats p"
    if "\<not> accepts (stats_stream p)"
    using that r(1) by (simp add: cycle_state_fields)
  have count: "writtenSamples (cycle_state p) =
        writtenSamples p + int (fst (net_read p) div 2) + int (fst (file_read p) div 2)"
    using c by (simp add: cycle_state_fields)
  have "sorted (map fst (stats p')) \<and> sorted (map snd (stats p'))" if "stats p = []"
    using that r(1,3,4) by simp
  with open_case closed_case count r(5) show ?thesis
    by blast
qed

lemma opened_simple_counter_fits:
  "counter_fits (opened [2, 1] [0, 0])" "mono (stopWatch (opened [2, 1] [0, 0]))"
  by (simp_all add: counter_fits_def remaining_def mono_def)
     (simp_all add: opened_eq blank_def int16_of_bytes_def)

lemma opened_simple_session:
  "session [Cycle, Pause, Cycle] (opened [2, 1] [0, 0])
     = ([2, 1], [0, 0], cycle_state (pause (cycle_state (opened [2, 1] [0, 0]))))"
proof -
  let ?P = "opened [2, 1] [0, 0]"
  let ?Q = "pause (cycle_state ?P)"
  have q: "fst (net_read ?Q) = 0" "fst (file_read ?Q) = 0"
    by (simp_all add: fst_net_read fst_file_read opened_simple_second_cycle)
  show ?thesis
    by (simp add: session_Cycle q opened_simple_net_read opened_simple_file_read
        del: session.simps(2))
qed

theorem stats_records_witness:
  "session [Cycle, Pause, Cycle] (opened [2, 1] [0, 0])
     = ([2, 1], [0, 0], cycle_state (pause (cycle_state (opened [2, 1] [0, 0]))))
   \<and> counter_fits (opened [2, 1] [0, 0]) \<and> mono (stopWatch (opened [2, 1] [0, 0]))
   \<and> accepts (stats_stream (opened [2, 1] [0, 0]))
   \<and> stats (opened [2, 1] [0, 0]) = []
   \<and> stats (cycle_state (opened [2, 1] [0, 0])) = [(0, 2)]
   \<and> writtenSamples (cycle_state (pause (cycle_state (opened [2, 1] [0, 0])))) = 2
   \<and> sorted (map fst (stats (cycle_state (pause (cycle_state (opened [2, 1] [0, 0]))))))
   \<and> sorted (map snd (stats (cycle_state (pause (cycle_state (opened [2, 1] [0, 0]))))))"
proof -
  let ?P = "opened [2, 1] [0, 0]"
  have e: "stats ?P = []" "writtenSamples ?P = 0" "stopWatch ?P (stopWatch_reads ?P) = 0"
    by (simp_all add: opened_eq blank_def)
  from stats_records [OF opened_simple_session opened_simple_counter_fits] e
  show ?thesis
    by (simp add: opened_simple_session opened_simple_counter_fits opened_simple_net_read
        opened_simple_file_read opened_accepts del: session.simps)
qed

text \<open>
  The claim as stated fails: in a cycle that reads one sample from each source, the mixing
  length of the specification is 1 and the counter grows by 2.
\<close>

theorem stats_count_counterexample:
  "fst (play_cycle (opened [2, 1] [0, 0])) div 2 = 1
   \<and> fst (snd (play_cycle (opened [2, 1] [0, 0]))) div 2 = 1
   \<and> stats (cycle_state (opened [2, 1] [0, 0])) = [(0, 2)]
   \<and> writtenSamples (cycle_state (opened [2, 1] [0, 0])) - writtenSamples (opened [2, 1] [0, 0])
       \<noteq> int (max (fst (play_cycle (opened [2, 1] [0, 0])) div 2)
                  (fst (snd (play_cycle (opened [2, 1] [0, 0]))) div 2))"
proof -
  let ?P = "opened [2, 1] [0, 0]"
  have e: "stats ?P = []" "writtenSamples ?P = 0" "stopWatch ?P (stopWatch_reads ?P) = 0"
    by (simp_all add: opened_eq blank_def)
  have c: "counted ?P = 2"
    by (simp add: counted_def opened_simple_net_read opened_simple_file_read e to_int16_def
        to_int32_def)
  show ?thesis
    by (simp add: play_cycle_cycle_state cycle_state_fields opened_simple_net_read
        opened_simple_file_read opened_accepts e c)
qed

subsection \<open>Playing to the end\<close>

lemma play_unfold:
  "play p =
     (if fst (file_read p) = 0 \<and> fst (net_read p) = 0 then cycle_state p
      else play (cycle_state p))"
  by (subst play.simps) (simp add: play_cycle_cycle_state cycle_state_fields)

lemma play_step:
  assumes "\<not> (fst (file_read p) = 0 \<and> fst (net_read p) = 0)"
  shows "play p = play (cycle_state p)"
  by (subst play_unfold) (simp only: assms if_False)

lemma play_at_end:
  assumes "fst (file_read p) = 0 \<and> fst (net_read p) = 0"
  shows "play p = cycle_state p"
  using assms by (subst play_unfold) simp

lemma play_induct [case_names step]:
  assumes "\<And>p. (\<not> (fst (file_read p) = 0 \<and> fst (net_read p) = 0) \<Longrightarrow> P (cycle_state p)) \<Longrightarrow> P p"
  shows "P p"
proof (induction p rule: play.induct)
  case (1 p)
  show ?case
  proof (rule assms)
    assume "\<not> (fst (file_read p) = 0 \<and> fst (net_read p) = 0)"
    then show "P (cycle_state p)"
      using "1.IH" [OF refl, of "fst (net_read p)" "(fst (file_read p), cycle_state p)"
          "fst (file_read p)" "cycle_state p"]
      by (simp add: play_cycle_cycle_state cycle_state_fields)
  qed
qed

lemma play_is_cycles: "\<exists>k. play p = (cycle_state ^^ Suc k) p"
proof (induction p rule: play_induct)
  case (step p)
  show ?case
  proof (cases "fst (file_read p) = 0 \<and> fst (net_read p) = 0")
    case True
    then have "play p = (cycle_state ^^ Suc 0) p"
      by (simp add: play_at_end)
    then show ?thesis by blast
  next
    case False
    from step [OF False] obtain k where "play (cycle_state p) = (cycle_state ^^ Suc k) (cycle_state p)"
      by blast
    then have "play p = (cycle_state ^^ Suc (Suc k)) p"
      unfolding play_step [OF False] by (simp add: funpow_swap1)
    then show ?thesis by blast
  qed
qed

lemma reads_zero_cycle_state:
  assumes "fst (file_read p) = 0 \<and> fst (net_read p) = 0"
  shows "fst (file_read (cycle_state p)) = 0 \<and> fst (net_read (cycle_state p)) = 0"
  using assms by (simp add: fst_net_read fst_file_read cycle_state_fields file_stream_def)

lemma reads_zero_pause:
  "fst (file_read (pause p)) = fst (file_read p)" "fst (net_read (pause p)) = fst (net_read p)"
  by (simp_all add: fst_net_read fst_file_read pause_fields file_stream_def)

lemma cycle_at_end:
  assumes "fst (file_read p) = 0 \<and> fst (net_read p) = 0"
  shows "play p = cycle_state p" and "sink (cycle_state p) = sink p"
proof -
  show "play p = cycle_state p"
    by (rule play_at_end [OF assms])
  have "length (mixed p) = 0"
    using assms by (simp add: length_mixed)
  then show "sink (cycle_state p) = sink p"
    by (simp add: cycle_state_fields)
qed

lemma play_ends:
  "fst (file_read (play p)) = 0 \<and> fst (net_read (play p)) = 0 \<and> \<not> paused (play p)"
proof (induction p rule: play_induct)
  case (step p)
  show ?case
  proof (cases "fst (file_read p) = 0 \<and> fst (net_read p) = 0")
    case True
    then show ?thesis
      using reads_zero_cycle_state [OF True]
      by (simp add: cycle_at_end(1) cycle_state_fields)
  next
    case False
    have "play p = play (cycle_state p)"
      by (rule play_step [OF False])
    with step [OF False] show ?thesis by simp
  qed
qed


lemma play_keeps:
  "networkBytes (play p) = networkBytes p \<and> playerBytes (play p) = playerBytes p
   \<and> (in_bounds p \<longrightarrow> in_bounds (play p))"
proof (induction p rule: play_induct)
  case (step p)
  show ?case
  proof (cases "fst (file_read p) = 0 \<and> fst (net_read p) = 0")
    case True
    then show ?thesis
      using in_bounds_cycle_state [of p] by (simp add: play_at_end cycle_state_fields)
  next
    case False
    show ?thesis
      unfolding play_step [OF False] using step [OF False] in_bounds_cycle_state [of p]
      by (simp add: cycle_state_fields)
  qed
qed

lemma play_reads_everything:
  assumes "in_bounds p" and "2 \<le> networkBytes p" and "2 \<le> playerBytes p"
  shows "m_sawIndex (nr (play p)) = length (m_saw (nr (play p)))"
    and "p_sawIndex (play p) = length (p_saw (play p))"
proof -
  let ?q = "play p"
  have b: "in_bounds ?q" "2 \<le> networkBytes ?q" "2 \<le> playerBytes ?q"
    using assms play_keeps [of p] by simp_all
  have "granted (nr ?q) (networkBytes ?q) = 0" "granted (file_stream ?q) (playerBytes ?q) = 0"
    using play_ends [of p] by (simp_all add: fst_net_read fst_file_read)
  then have "length (m_saw (nr ?q)) \<le> m_sawIndex (nr ?q)"
    and "length (p_saw ?q) \<le> p_sawIndex ?q"
    using b(2,3) by (simp_all add: granted_zero_iff file_stream_def)
  then show "m_sawIndex (nr ?q) = length (m_saw (nr ?q))"
    and "p_sawIndex ?q = length (p_saw ?q)"
    using b(1) by (simp_all add: in_bounds_def)
qed

text \<open>
  A call of \<^verbatim>\<open>play\<close> returns after the first cycle in which both reads give 0 bytes.
\<close>

lemma play_stops_at_first_end:
  assumes "\<forall>j<k. \<not> (fst (file_read ((cycle_state ^^ j) p)) = 0
                     \<and> fst (net_read ((cycle_state ^^ j) p)) = 0)"
    and "fst (file_read ((cycle_state ^^ k) p)) = 0 \<and> fst (net_read ((cycle_state ^^ k) p)) = 0"
  shows "play p = cycle_state ((cycle_state ^^ k) p)"
  using assms
proof (induction k arbitrary: p)
  case 0
  then show ?case
    by (simp add: play_at_end)
next
  case (Suc k)
  from Suc.prems(1) have n: "\<not> (fst (file_read p) = 0 \<and> fst (net_read p) = 0)"
    by (metis funpow_0 zero_less_Suc)
  have "\<forall>j<k. \<not> (fst (file_read ((cycle_state ^^ j) (cycle_state p))) = 0
                  \<and> fst (net_read ((cycle_state ^^ j) (cycle_state p))) = 0)"
  proof (intro allI impI)
    fix j
    assume "j < k"
    then have "Suc j < Suc k" by simp
    with Suc.prems(1)
    have "\<not> (fst (file_read ((cycle_state ^^ Suc j) p)) = 0
             \<and> fst (net_read ((cycle_state ^^ Suc j) p)) = 0)"
      by blast
    then show "\<not> (fst (file_read ((cycle_state ^^ j) (cycle_state p))) = 0
                  \<and> fst (net_read ((cycle_state ^^ j) (cycle_state p))) = 0)"
      by (simp add: funpow_swap1)
  qed
  moreover have "fst (file_read ((cycle_state ^^ k) (cycle_state p))) = 0
      \<and> fst (net_read ((cycle_state ^^ k) (cycle_state p))) = 0"
    using Suc.prems(2) by (simp add: funpow_swap1)
  ultimately have "play (cycle_state p) = cycle_state ((cycle_state ^^ k) (cycle_state p))"
    by (rule Suc.IH)
  then show ?case
    unfolding play_step [OF n] by (simp add: funpow_swap1)
qed

text \<open>
  Claim C4. Once both sources return 0 bytes in the same cycle, the loop exits: the call
  of \<^verbatim>\<open>play\<close> whose cycle this is returns with the player the cycle leaves, so that
  nothing is written to either sink after it. The cycle itself writes no byte to the
  output sink, and its one record to the statistics (when the statistics stream takes
  it). Both sources stay at their end: a read of either still gives 0 bytes. The code has
  no state variable that would hold a stopped state; the stopped state is that \<^verbatim>\<open>play\<close>
  has returned with both sources at their end.
\<close>

theorem play_returns_at_end:
  assumes "play_cycle p = (0, 0, p1)"
  shows "play p = p1
    \<and> sink (play p) = sink p1 \<and> stats (play p) = stats p1
    \<and> sink p1 = sink p
    \<and> stats p1 =
        stats p @ (if accepts (stats_stream p)
                   then [(stopWatch p (stopWatch_reads p), writtenSamples p1)] else [])
    \<and> fst (net_read (play p)) = 0 \<and> fst (file_read (play p)) = 0"
proof -
  note r = play_cycle_results [OF assms]
  have e: "fst (file_read p) = 0 \<and> fst (net_read p) = 0"
    using r by simp
  have "play p = p1"
    using cycle_at_end(1) [OF e] r(3) by simp
  moreover have "sink (cycle_state p) = sink p"
    by (rule cycle_at_end(2) [OF e])
  moreover have "stats (cycle_state p) =
        stats p @ (if accepts (stats_stream p)
                   then [(stopWatch p (stopWatch_reads p), writtenSamples (cycle_state p))]
                   else [])"
    by (simp add: cycle_state_fields)
  moreover have "fst (net_read (cycle_state p)) = 0 \<and> fst (file_read (cycle_state p)) = 0"
    using reads_zero_cycle_state [OF e] by simp
  ultimately show ?thesis
    using r(3) by simp
qed

lemma opened_simple_play:
  "play (opened [2, 1] [0, 0]) = cycle_state (cycle_state (opened [2, 1] [0, 0]))"
  "fst (net_read (cycle_state (opened [2, 1] [0, 0]))) = 0"
  "fst (file_read (cycle_state (opened [2, 1] [0, 0]))) = 0"
proof -
  let ?P = "opened [2, 1] [0, 0]"
  have n: "\<not> (fst (file_read ?P) = 0 \<and> fst (net_read ?P) = 0)"
    by (simp add: opened_simple_net_read)
  show e: "fst (net_read (cycle_state ?P)) = 0" "fst (file_read (cycle_state ?P)) = 0"
    using opened_simple_second_cycle
    by (simp_all add: fst_net_read fst_file_read pause_fields file_stream_def cycle_state_fields)
  show "play ?P = cycle_state (cycle_state ?P)"
    unfolding play_step [OF n] using e by (simp add: play_at_end)
qed

theorem play_returns_at_end_witness:
  "play_cycle (cycle_state (opened [2, 1] [0, 0]))
       = (0, 0, cycle_state (cycle_state (opened [2, 1] [0, 0])))
   \<and> play (cycle_state (opened [2, 1] [0, 0]))
       = cycle_state (cycle_state (opened [2, 1] [0, 0]))
   \<and> sink (play (cycle_state (opened [2, 1] [0, 0]))) = sink (cycle_state (opened [2, 1] [0, 0]))
   \<and> stats (cycle_state (opened [2, 1] [0, 0])) = [(0, 2)]
   \<and> stats (play (cycle_state (opened [2, 1] [0, 0]))) = [(0, 2), (1, 2)]"
proof -
  let ?P = "opened [2, 1] [0, 0]"
  have b: "play_cycle (cycle_state ?P) = (0, 0, cycle_state (cycle_state ?P))"
    by (simp add: play_cycle_cycle_state opened_simple_play)
  have e: "stats ?P = []" "writtenSamples ?P = 0" "stopWatch ?P = int" "stopWatch_reads ?P = 0"
    by (simp_all add: opened_eq blank_def)
  have c: "counted ?P = 2"
    by (simp add: counted_def opened_simple_net_read opened_simple_file_read e to_int16_def
        to_int32_def)
  have d: "counted (cycle_state ?P) = 2"
    by (simp add: counted_def [of "cycle_state ?P"] opened_simple_play cycle_state_fields c
        to_int16_def to_int32_def)
  have s: "stats (cycle_state ?P) = [(0, 2)]" "writtenSamples (cycle_state (cycle_state ?P)) = 2"
    "stopWatch (cycle_state ?P) (stopWatch_reads (cycle_state ?P)) = 1"
    "accepts (stats_stream (cycle_state ?P))"
    by (simp_all add: cycle_state_fields opened_accepts e c d)
  note t = play_returns_at_end [OF b]
  have t1: "play (cycle_state ?P) = cycle_state (cycle_state ?P)"
    using t by (rule conjunct1)
  have "sink (cycle_state (cycle_state ?P)) = sink (cycle_state ?P)"
    using t by (rule conjunct2 [THEN conjunct2, THEN conjunct2, THEN conjunct1])
  moreover have "stats (cycle_state (cycle_state ?P)) = [(0, 2), (1, 2)]"
    using t [THEN conjunct2, THEN conjunct2, THEN conjunct2, THEN conjunct2, THEN conjunct1] s
    by simp
  ultimately show ?thesis
    using b s(1) by (simp add: t1)
qed

text \<open>
  Claim C7: every control operation, \<^verbatim>\<open>play\<close> in particular, returns at once and does no
  reading, mixing or writing on the caller's thread. The code departs from it, and from the
  comment at the head of its own class (no function is supposed to block): \<^verbatim>\<open>play\<close> does
  its reading, mixing and writing itself, by direct calls, and returns only after the cycle
  in which both sources are at their end. On files of one sample each, the call returns
  with both sources read to the end, eight bytes written to the sink and two records
  written to the statistics.
\<close>

theorem play_runs_to_end_before_returning:
  "play (opened [2, 1] [0, 0]) = cycle_state (cycle_state (opened [2, 1] [0, 0]))
   \<and> m_sawIndex (nr (opened [2, 1] [0, 0])) = 0
   \<and> p_sawIndex (opened [2, 1] [0, 0]) = 0
   \<and> m_sawIndex (nr (play (opened [2, 1] [0, 0]))) = length (m_saw (nr (play (opened [2, 1] [0, 0]))))
   \<and> p_sawIndex (play (opened [2, 1] [0, 0])) = length (p_saw (play (opened [2, 1] [0, 0])))
   \<and> sink (opened [2, 1] [0, 0]) = []
   \<and> length (sink (play (opened [2, 1] [0, 0]))) = 8
   \<and> stats (opened [2, 1] [0, 0]) = []
   \<and> length (stats (play (opened [2, 1] [0, 0]))) = 2"
proof -
  let ?P = "opened [2, 1] [0, 0]"
  have e: "stats ?P = []" "sink ?P = []" "m_sawIndex (nr ?P) = 0" "p_sawIndex ?P = 0"
    by (simp_all add: opened_eq blank_def)
  have l: "length (mixed ?P) = 8" "length (mixed (cycle_state ?P)) = 0"
    by (simp_all add: length_mixed opened_simple_net_read opened_simple_file_read
        opened_simple_play)
  have b: "in_bounds ?P" "2 \<le> networkBytes ?P" "2 \<le> playerBytes ?P"
    by (simp_all add: in_bounds_def opened_eq blank_def)
  note i = play_reads_everything [OF b]
  have "length (sink (play ?P)) = 8" "length (stats (play ?P)) = 2"
    using e l by (simp_all add: opened_simple_play(1) cycle_state_fields opened_accepts)
  with e i opened_simple_play(1) show ?thesis
    by simp
qed


end
